theory Spec2Isabelle
  imports Complex_Main "HOL-Library.AList" "HOL-Library.Multiset" "HOL-Library.Log_Nat"
begin

section \<open>The aggregation functions of the analytics dashboard (src/src/Dashboard.js)\<close>

text \<open>
  The dashboard component holds the parsed rows in \<open>data\<close> and derives every report
  from it by the closures \<open>processSessionData\<close>, \<open>processLearningPathData\<close>,
  \<open>processPathIntentData\<close>, \<open>processFollowUpData\<close>, \<open>processDifficultyData\<close> and
  \<open>getExampleQuestions\<close>. Each closure is embedded below as a function of \<open>data\<close>.

  Conventions of the embedding:
  \<^item> a cell of a row is a JavaScript value (\<open>jsval\<close>). All that the closures use of a
    number cell is whether it is truthy and which property key it converts to, so a
    number cell is kept as the numeral that \<open>String\<close> writes for it;
  \<^item> a string is a list of 8-bit characters, each standing for one code unit;
  \<^item> a plain object used as a dictionary (\<open>{}\<close>) is the list of its own properties in
    insertion order, and it inherits the members of \<open>Object.prototype\<close>: a lookup
    \<open>ob[k]\<close> finds an own property, an inherited member, or nothing. \<open>Object.keys\<close>
    enumerates the own array-index keys first, in ascending numeric order, then the
    other own keys in insertion order;
  \<^item> a Number is a rational (the exact value of a double), \<open>NaN\<close> or an infinity;
    every arithmetic operation rounds its exact result to the nearest binary64 value,
    ties to the even significand. The sign of a zero is not kept (no operand here is
    negative). Counters and array lengths are natural numbers: they stay far below
    \<open>2^53\<close>, where every integer is a double;
  \<^item> an exception is a value \<open>Inl TypeError\<close> of the result. Two more results end a run
    of the embedding: \<open>Inl BuiltinObject\<close> when the code reads and assigns a property of
    a built-in object, which is outside the state kept here, and \<open>Inl UnspecifiedOrder\<close>
    when the language leaves the order of a sort to the implementation.
\<close>

subsection \<open>JavaScript values\<close>

datatype jsval = JUndefined | JNull | JBool bool | JNum string | JStr string

datatype error = TypeError | BuiltinObject | UnspecifiedOrder

text \<open>ToBoolean. The numerals of the falsy numbers are \<open>0\<close> and \<open>NaN\<close>.\<close>

fun truthy :: "jsval \<Rightarrow> bool" where
  "truthy JUndefined = False"
| "truthy JNull = False"
| "truthy (JBool b) = b"
| "truthy (JNum n) = (n \<noteq> ''0'' \<and> n \<noteq> ''NaN'')"
| "truthy (JStr s) = (s \<noteq> [])"

text \<open>The operator \<open>a || b\<close>.\<close>

definition js_or :: "jsval \<Rightarrow> jsval \<Rightarrow> jsval" where
  "js_or a b = (if truthy a then a else b)"

text \<open>The decimal numeral of a natural number, as \<open>String(n)\<close> writes it.\<close>

definition digit_char :: "nat \<Rightarrow> char" where
  "digit_char d = char_of (d + 48)"

function decimal :: "nat \<Rightarrow> string" where
  "decimal n = (if 10 \<le> n then decimal (n div 10) else []) @ [digit_char (n mod 10)]"
  by pat_completeness auto
termination
  by (relation "measure id") auto

declare decimal.simps [simp del]

text \<open>ToPropertyKey on a cell: the string under which \<open>obj[v]\<close> looks the value up.\<close>

fun to_key :: "jsval \<Rightarrow> string" where
  "to_key JUndefined = ''undefined''"
| "to_key JNull = ''null''"
| "to_key (JBool b) = (if b then ''true'' else ''false'')"
| "to_key (JNum n) = n"
| "to_key (JStr s) = s"

text \<open>\<open>String.prototype.trim\<close>: white space among the code units below 256.\<close>

definition is_space :: "char \<Rightarrow> bool" where
  "is_space c = ((of_char c :: nat) \<in> {9, 10, 11, 12, 13, 32, 160})"

definition js_trim :: "string \<Rightarrow> string" where
  "js_trim s = rev (dropWhile is_space (rev (dropWhile is_space s)))"

subsection \<open>Numbers: binary64 arithmetic and \<open>toFixed\<close>\<close>

datatype number = Fin rat | NaN | PosInf | NegInf

definition pow2 :: "int \<Rightarrow> rat" where
  "pow2 e = (if 0 \<le> e then 2 ^ nat e else 1 / 2 ^ nat (- e))"

text \<open>The exponent \<open>e\<close> with \<open>2^e \<le> x < 2^(e+1)\<close>, for a positive \<open>x\<close>.\<close>

definition binade :: "rat \<Rightarrow> int" where
  "binade x =
     (let k = bitlen (fst (quotient_of x)) - bitlen (snd (quotient_of x))
      in if pow2 k \<le> x then k else k - 1)"

text \<open>The nearest integer, the even one of two.\<close>

definition round_even :: "rat \<Rightarrow> int" where
  "round_even x =
     (let f = \<lfloor>x\<rfloor>; d = x - of_int f
      in if d < 1 / 2 then f else if 1 / 2 < d then f + 1 else if even f then f else f + 1)"

text \<open>
  The binary64 value of an exact result: a significand of 53 bits, exponents from
  \<open>-1074\<close> (gradual underflow) to \<open>971\<close>, round to nearest, ties to even, overflow to
  an infinity.
\<close>

definition binary64 :: "rat \<Rightarrow> number" where
  "binary64 x =
     (if x = 0 then Fin 0
      else (let e = max (binade \<bar>x\<bar> - 52) (- 1074);
                m = round_even (\<bar>x\<bar> / pow2 e)
            in if 971 < e \<or> (e = 971 \<and> 9007199254740992 \<le> m)
               then (if 0 < x then PosInf else NegInf)
               else Fin (sgn x * of_int m * pow2 e)))"

text \<open>ToNumber of an array element that may be missing (\<open>undefined\<close> is \<open>NaN\<close>).\<close>

fun to_number :: "nat option \<Rightarrow> number" where
  "to_number None = NaN"
| "to_number (Some n) = Fin (of_nat n)"

fun js_add :: "number \<Rightarrow> number \<Rightarrow> number" where
  "js_add (Fin a) (Fin b) = binary64 (a + b)"
| "js_add NaN _ = NaN"
| "js_add _ NaN = NaN"
| "js_add PosInf NegInf = NaN"
| "js_add NegInf PosInf = NaN"
| "js_add PosInf _ = PosInf"
| "js_add _ PosInf = PosInf"
| "js_add NegInf _ = NegInf"
| "js_add _ NegInf = NegInf"

definition js_neg :: "number \<Rightarrow> number" where
  "js_neg x = (case x of Fin a \<Rightarrow> Fin (- a) | NaN \<Rightarrow> NaN | PosInf \<Rightarrow> NegInf | NegInf \<Rightarrow> PosInf)"

fun js_mul :: "number \<Rightarrow> number \<Rightarrow> number" where
  "js_mul (Fin a) (Fin b) = binary64 (a * b)"
| "js_mul NaN _ = NaN"
| "js_mul _ NaN = NaN"
| "js_mul (Fin a) y = (if a = 0 then NaN else if 0 < a then y else js_neg y)"
| "js_mul x (Fin b) = (if b = 0 then NaN else if 0 < b then x else js_neg x)"
| "js_mul x y = (if x = y then PosInf else NegInf)"

fun js_div :: "number \<Rightarrow> number \<Rightarrow> number" where
  "js_div (Fin a) (Fin b) =
     (if b = 0 then (if a = 0 then NaN else if 0 < a then PosInf else NegInf)
      else binary64 (a / b))"
| "js_div NaN _ = NaN"
| "js_div _ NaN = NaN"
| "js_div (Fin a) _ = Fin 0"
| "js_div x (Fin b) = (if 0 \<le> b then x else js_neg x)"
| "js_div _ _ = NaN"

text \<open>
  \<open>Number.prototype.toFixed(f)\<close>: the integer \<open>n\<close> for which \<open>n / 10^f\<close> is nearest to
  the number (the larger one of two), written with \<open>f\<close> digits after the point. The
  numbers formatted here are counts and quotients of counts: they stay below \<open>10^21\<close>,
  from where on \<open>toFixed\<close> writes exponent notation.
\<close>

definition toFixed :: "nat \<Rightarrow> number \<Rightarrow> string" where
  "toFixed f v =
     (case v of
        NaN \<Rightarrow> ''NaN''
      | PosInf \<Rightarrow> ''Infinity''
      | NegInf \<Rightarrow> ''-Infinity''
      | Fin x \<Rightarrow>
          (let s = (if x < 0 then ''-'' else []);
               n = nat \<lfloor>\<bar>x\<bar> * 10 ^ f + 1 / 2\<rfloor>;
               m = decimal n;
               m0 = replicate (f + 1 - length m) (CHR ''0'') @ m;
               k = length m0
           in s @ (if f = 0 then m else take (k - f) m0 @ ''.'' @ drop (k - f) m0)))"

subsection \<open>Objects as dictionaries, arrays, sets\<close>

type_synonym 'v obj = "(string \<times> 'v) list"

definition is_digit :: "char \<Rightarrow> bool" where
  "is_digit c = (48 \<le> (of_char c :: nat) \<and> (of_char c :: nat) \<le> 57)"

definition digits_value :: "string \<Rightarrow> int" where
  "digits_value s = foldl (\<lambda>a c. 10 * a + (of_char c - 48)) 0 s"

text \<open>An array index: the canonical numeral of an integer from 0 to \<open>2^32 - 2\<close>.\<close>

definition is_array_index :: "string \<Rightarrow> bool" where
  "is_array_index s =
     (s \<noteq> [] \<and> list_all is_digit s \<and> (s = ''0'' \<or> hd s \<noteq> CHR ''0'')
      \<and> digits_value s \<le> 4294967294)"

text \<open>
  The own properties in the order of \<open>Object.keys\<close>, \<open>Object.values\<close> and
  \<open>Object.entries\<close>.
\<close>

definition Object_entries :: "'v obj \<Rightarrow> (string \<times> 'v) list" where
  "Object_entries ob =
     sort_key (\<lambda>p. digits_value (fst p)) (filter (\<lambda>p. is_array_index (fst p)) ob)
     @ filter (\<lambda>p. \<not> is_array_index (fst p)) ob"

definition Object_keys :: "'v obj \<Rightarrow> string list" where
  "Object_keys ob = map fst (Object_entries ob)"

definition Object_values :: "'v obj \<Rightarrow> 'v list" where
  "Object_values ob = map snd (Object_entries ob)"

text \<open>
  The members that every plain object inherits from \<open>Object.prototype\<close>: eleven
  methods and the accessor \<open>__proto__\<close>. Each of them is truthy when read.
\<close>

definition object_prototype_members :: "string list" where
  "object_prototype_members =
     [''constructor'', ''__defineGetter__'', ''__defineSetter__'', ''hasOwnProperty'',
      ''__lookupGetter__'', ''__lookupSetter__'', ''isPrototypeOf'',
      ''propertyIsEnumerable'', ''toString'', ''valueOf'', ''__proto__'',
      ''toLocaleString'']"

text \<open>
  \<open>ob[k]\<close> on a plain object: an own property, else an inherited member, else
  \<open>undefined\<close>. The assignment \<open>ob[k] = v\<close> of an own property is
  \<open>AList.update k v ob\<close>, which keeps the place of a key that is present and appends a
  new one.
\<close>

datatype 'v lookup = Own 'v | Inherited | Absent

definition obj_get :: "'v obj \<Rightarrow> string \<Rightarrow> 'v lookup" where
  "obj_get ob k =
     (case map_of ob k of
        Some v \<Rightarrow> Own v
      | None \<Rightarrow> if k \<in> set object_prototype_members then Inherited else Absent)"

text \<open>\<open>xs[i]\<close> for an integer \<open>i\<close>: \<open>None\<close> is \<open>undefined\<close>.\<close>

definition at_index :: "'a list \<Rightarrow> int \<Rightarrow> 'a option" where
  "at_index xs i = (if 0 \<le> i \<and> i < int (length xs) then Some (xs ! nat i) else None)"

text \<open>\<open>Set.prototype.add\<close> on a set kept in insertion order.\<close>

definition set_add :: "'a list \<Rightarrow> 'a \<Rightarrow> 'a list" where
  "set_add s x = (if x \<in> set s then s else s @ [x])"

text \<open>A \<open>forEach\<close> whose body may throw.\<close>

fun forEachE :: "('s \<Rightarrow> 'a \<Rightarrow> error + 's) \<Rightarrow> 's \<Rightarrow> 'a list \<Rightarrow> error + 's" where
  "forEachE f s [] = Inr s"
| "forEachE f s (x # xs) = (case f s x of Inl e \<Rightarrow> Inl e | Inr s' \<Rightarrow> forEachE f s' xs)"

text \<open>\<open>Array.prototype.reduce\<close> without an initial value: it throws on an empty array.\<close>

fun reduce1 :: "('a \<Rightarrow> 'a \<Rightarrow> 'a) \<Rightarrow> 'a list \<Rightarrow> error + 'a" where
  "reduce1 f [] = Inl TypeError"
| "reduce1 f (x # xs) = Inr (foldl f x xs)"

subsection \<open>Counters kept in a dictionary\<close>

text \<open>
  The value stored by \<open>counts[k] = (counts[k] || 0) + 1\<close> is a number, unless \<open>k\<close>
  names an inherited method: then \<open>+\<close> concatenates the source text of the method and
  \<open>1\<close>, and the value is a string (\<open>Text\<close>) from there on. Such a string is never a
  numeral: it contains the word \<open>function\<close>.
\<close>

datatype cval = Count nat | Text string

text \<open>\<open>String(f)\<close> for the inherited method named \<open>k\<close>, as V8 writes a native function.\<close>

definition native_text :: "string \<Rightarrow> string" where
  "native_text k =
     ''function '' @ (if k = ''constructor'' then ''Object'' else k) @ ''() { [native code] }''"

text \<open>
  \<open>counts[k] = (counts[k] || 0) + 1\<close>. Reading \<open>__proto__\<close> gives \<open>Object.prototype\<close>,
  and assigning the resulting string to \<open>__proto__\<close> calls the inherited setter, which
  ignores a value that is not an object: the dictionary is unchanged.
\<close>

definition increment :: "cval obj \<Rightarrow> string \<Rightarrow> cval obj" where
  "increment counts k =
     (case obj_get counts k of
        Absent \<Rightarrow> AList.update k (Count 1) counts
      | Own (Count n) \<Rightarrow> AList.update k (Count (n + 1)) counts
      | Own (Text s) \<Rightarrow> AList.update k (if s = [] then Count 1 else Text (s @ ''1'')) counts
      | Inherited \<Rightarrow>
          if k = ''__proto__'' then counts
          else AList.update k (Text (native_text k @ ''1'')) counts)"

text \<open>\<open>sum + count\<close> in \<open>reduce((sum, count) => sum + count, 0)\<close>.\<close>

fun js_plus :: "cval \<Rightarrow> cval \<Rightarrow> cval" where
  "js_plus (Count a) (Count b) = Count (a + b)"
| "js_plus (Count a) (Text t) = Text (decimal a @ t)"
| "js_plus (Text s) (Count b) = Text (s @ decimal b)"
| "js_plus (Text s) (Text t) = Text (s @ t)"

text \<open>ToNumber of a stored value, and of a looked-up value that may be missing.\<close>

fun cnum :: "cval \<Rightarrow> number" where
  "cnum (Count n) = Fin (of_nat n)"
| "cnum (Text s) = NaN"

fun count_number :: "cval option \<Rightarrow> number" where
  "count_number None = NaN"
| "count_number (Some v) = cnum v"

text \<open>Strings compare by code units.\<close>

fun str_less :: "string \<Rightarrow> string \<Rightarrow> bool" where
  "str_less [] [] = False"
| "str_less [] (y # ys) = True"
| "str_less (x # xs) [] = False"
| "str_less (x # xs) (y # ys) =
     ((of_char x :: nat) < of_char y \<or> (x = y \<and> str_less xs ys))"

text \<open>
  \<open>a > b\<close> on two looked-up values: numbers compare as numbers, two strings as
  strings, and the comparison is false when a side is \<open>undefined\<close> or when a string
  meets a number (the string converts to \<open>NaN\<close>).
\<close>

fun js_gt :: "cval option \<Rightarrow> cval option \<Rightarrow> bool" where
  "js_gt (Some (Count a)) (Some (Count b)) = (b < a)"
| "js_gt (Some (Text s)) (Some (Text t)) = str_less t s"
| "js_gt _ _ = False"

text \<open>
  \<open>xs.sort((a, b) => b.f - a.f)\<close>. On numbers this is a stable sort into descending
  order. When some \<open>f\<close> is a string the comparison yields \<open>NaN\<close>, the comparator is not
  a consistent comparison function, and the language leaves the order to the
  implementation, unless there is at most one element to sort.
\<close>

definition is_count :: "cval \<Rightarrow> bool" where
  "is_count v = (case v of Count n \<Rightarrow> True | Text s \<Rightarrow> False)"

definition the_count :: "cval \<Rightarrow> nat" where
  "the_count v = (case v of Count n \<Rightarrow> n | Text s \<Rightarrow> 0)"

definition sort_desc :: "('a \<Rightarrow> cval) \<Rightarrow> 'a list \<Rightarrow> error + 'a list" where
  "sort_desc f xs =
     (if list_all (\<lambda>x. is_count (f x)) xs then Inr (sort_key (\<lambda>x. - int (the_count (f x))) xs)
      else if length xs \<le> 1 then Inr xs
      else Inl UnspecifiedOrder)"

subsection \<open>Rows\<close>

record item =
  session_id :: jsval
  question :: jsval
  user_intent :: jsval
  question_complexity :: jsval
  learning_path :: jsval
  has_follow_up_questions :: jsval
  has_difficulty :: jsval
  difficulty_type :: jsval

subsection \<open>Session analysis (\<open>processSessionData\<close>, lines 99 to 139)\<close>

text \<open>
  The body of the first \<open>forEach\<close>. A missing group is created, then the row is
  pushed. When the key names an inherited member, \<open>!sessionQuestions[k]\<close> is false, no
  group is created, and the call of \<open>push\<close>, which the member does not have, throws.
\<close>

definition push_item :: "item list obj \<Rightarrow> item \<Rightarrow> error + item list obj" where
  "push_item sq it =
     (let k = to_key (session_id it)
      in case obj_get sq k of
           Absent \<Rightarrow> Inr (AList.update k [it] sq)
         | Own g \<Rightarrow> Inr (AList.update k (g @ [it]) sq)
         | Inherited \<Rightarrow> Inl TypeError)"

definition sessionQuestions :: "item list \<Rightarrow> error + item list obj" where
  "sessionQuestions data = forEachE push_item [] data"

record session_count =
  id_of :: string
  count_of :: nat

text \<open>
  Lines 127 to 131. \<open>sortedCounts[middle]\<close> is \<open>undefined\<close> out of range: the sum of the
  even branch is then \<open>NaN\<close>, the method call of the odd branch throws.
\<close>

definition medianOfCounts :: "nat list \<Rightarrow> error + string" where
  "medianOfCounts counts =
     (let sortedCounts = sort counts;
          middle = length sortedCounts div 2
      in if length sortedCounts mod 2 = 0
         then Inr (toFixed 2
                (js_div (js_add (to_number (at_index sortedCounts (int middle - 1)))
                                (to_number (at_index sortedCounts (int middle))))
                        (Fin 2)))
         else (case at_index sortedCounts (int middle) of
                 None \<Rightarrow> Inl TypeError
               | Some c \<Rightarrow> Inr (toFixed 2 (Fin (of_nat c)))))"

text \<open>
  The report. \<open>Object.keys(sessionQuestions).map(...)\<close> reads
  \<open>sessionQuestions[sessionId]\<close> for every own key: it maps over the entries in key
  order. The field \<open>distributionData\<close> (lines 115 to 124) is a second view of
  \<open>questionsPerSession\<close> and is not part of the embedding.
\<close>

record session_report =
  sessionsCount :: nat
  questionsPerSession :: "session_count list"
  medianQuestionsPerSession :: string

definition processSessionData :: "item list \<Rightarrow> error + session_report" where
  "processSessionData data =
     (case sessionQuestions data of
        Inl e \<Rightarrow> Inl e
      | Inr sq \<Rightarrow>
          (let qps = map (\<lambda>(sessionId, g). \<lparr>id_of = sessionId, count_of = length g\<rparr>)
                       (Object_entries sq)
           in case medianOfCounts (map count_of qps) of
                Inl e \<Rightarrow> Inl e
              | Inr m \<Rightarrow> Inr \<lparr>sessionsCount = length (Object_keys sq),
                              questionsPerSession = qps,
                              medianQuestionsPerSession = m\<rparr>))"

subsection \<open>Follow-up analysis (\<open>processFollowUpData\<close>, lines 248 to 263)\<close>

definition isTrue :: "jsval \<Rightarrow> bool" where
  "isTrue v = (v = JBool True \<or> v = JStr ''True'')"

record named_value =
  name :: string
  val :: nat

text \<open>
  The object \<open>counts\<close> has exactly the two keys it is created with: it is the pair of
  their values, the count under \<open>'With Follow-ups'\<close> first.
\<close>

definition followUpStep :: "nat \<times> nat \<Rightarrow> item \<Rightarrow> nat \<times> nat" where
  "followUpStep counts it =
     (if isTrue (has_follow_up_questions it)
      then (fst counts + 1, snd counts)
      else (fst counts, snd counts + 1))"

definition processFollowUpData :: "item list \<Rightarrow> named_value list" where
  "processFollowUpData data =
     (let counts = foldl followUpStep (0, 0) data
      in [\<lparr>name = ''With Follow-ups'', val = fst counts\<rparr>,
          \<lparr>name = ''Without Follow-ups'', val = snd counts\<rparr>])"

text \<open>The follow-up rate the component displays (line 404), from \<open>followUpData\<close>.\<close>

definition followUpRate :: "named_value list \<Rightarrow> error + string" where
  "followUpRate followUpData =
     (case (at_index followUpData 0, at_index followUpData 1) of
        (Some a, Some b) \<Rightarrow>
          Inr (toFixed 1
            (js_mul (js_div (Fin (of_nat (val a))) (Fin (of_nat (val a + val b)))) (Fin 100)))
      | _ \<Rightarrow> Inl TypeError)"

subsection \<open>Learning path distribution (\<open>processLearningPathData\<close>, lines 180 to 200)\<close>

text \<open>An entry of the result; the source names its fields \<open>name\<close>, \<open>value\<close>, \<open>percentage\<close>.\<close>

record path_share =
  name_of :: string
  value_of :: cval
  percentage :: string

definition learningPathStep :: "cval obj \<Rightarrow> item \<Rightarrow> cval obj" where
  "learningPathStep counts it =
     (let path = js_or (learning_path it) (JStr ''none'')
      in if path \<noteq> JStr ''none'' \<and> path \<noteq> JStr ''null''
         then increment counts (to_key path)
         else counts)"

definition learningPathCounts :: "item list \<Rightarrow> cval obj" where
  "learningPathCounts data = foldl learningPathStep [] data"

text \<open>
  \<open>Object.keys(counts).map(...)\<close> reads \<open>counts[key]\<close> for every own key: it maps over
  the entries in key order.
\<close>

definition processLearningPathData :: "item list \<Rightarrow> error + path_share list" where
  "processLearningPathData data =
     (let counts = learningPathCounts data;
          totalNonNull = foldl js_plus (Count 0) (Object_values counts)
      in sort_desc value_of
           (map (\<lambda>(key, v).
                   \<lparr>name_of = key, value_of = v,
                    percentage =
                      toFixed 1 (js_mul (js_div (cnum v) (cnum totalNonNull)) (Fin 100))\<rparr>)
                (Object_entries counts)))"

subsection \<open>Learning path by intent (\<open>processPathIntentData\<close>, lines 203 to 245)\<close>

text \<open>\<open>item.learning_path ? item.learning_path.trim() : 'none'\<close>: only a string has \<open>trim\<close>.\<close>

definition trimmedPath :: "jsval \<Rightarrow> error + string" where
  "trimmedPath v =
     (if truthy v then (case v of JStr s \<Rightarrow> Inr (js_trim s) | _ \<Rightarrow> Inl TypeError)
      else Inr ''none'')"

text \<open>
  The body of the first loop, on the pair of \<open>pathIntents\<close> and \<open>validPaths\<close>. A missing
  \<open>pathIntents[path]\<close> is created empty and then updated, which appends the path. When
  the path names an inherited member, \<open>pathIntents[path]\<close> is a built-in object
  (\<open>Object\<close>, \<open>Object.prototype\<close> or a method), whose property \<open>intent\<close> the code reads
  and assigns: the run leaves the embedding.
\<close>

definition pathIntentStep ::
  "cval obj obj \<times> string list \<Rightarrow> item \<Rightarrow> error + (cval obj obj \<times> string list)" where
  "pathIntentStep st it =
     (case trimmedPath (learning_path it) of
        Inl e \<Rightarrow> Inl e
      | Inr path \<Rightarrow>
          (let intent = to_key (js_or (user_intent it) (JStr ''unknown''))
           in if path \<noteq> ''none'' \<and> path \<noteq> ''null''
              then (case obj_get (fst st) path of
                      Inherited \<Rightarrow> Inl BuiltinObject
                    | Absent \<Rightarrow>
                        Inr (AList.update path (increment [] intent) (fst st),
                             set_add (snd st) path)
                    | Own intentCounts \<Rightarrow>
                        Inr (AList.update path (increment intentCounts intent) (fst st),
                             set_add (snd st) path))
              else Inr st))"

definition pathIntents :: "item list \<Rightarrow> error + (cval obj obj \<times> string list)" where
  "pathIntents data = forEachE pathIntentStep ([], []) data"

record path_row =
  path :: string
  total :: cval
  dominantIntent :: string
  dominantIntentCount :: "cval option"
  dominantIntentPercentage :: string

text \<open>
  The body of the second loop: the row of one path. The keys that \<open>reduce\<close> compares
  are own keys of \<open>intentCounts\<close>.
\<close>

definition pathRow :: "cval obj obj \<Rightarrow> string \<Rightarrow> error + path_row" where
  "pathRow pis p =
     (case map_of pis p of
        None \<Rightarrow> Inl TypeError
      | Some intentCounts \<Rightarrow>
          (let totalForPath = foldl js_plus (Count 0) (Object_values intentCounts)
           in case reduce1 (\<lambda>a b. if js_gt (map_of intentCounts a) (map_of intentCounts b)
                                   then a else b)
                     (Object_keys intentCounts) of
                Inl e \<Rightarrow> Inl e
              | Inr d \<Rightarrow>
                  Inr \<lparr>path = p, total = totalForPath, dominantIntent = d,
                       dominantIntentCount = map_of intentCounts d,
                       dominantIntentPercentage =
                         toFixed 1
                           (js_mul (js_div (count_number (map_of intentCounts d))
                                           (cnum totalForPath))
                                   (Fin 100))\<rparr>))"

fun pathRows :: "cval obj obj \<Rightarrow> string list \<Rightarrow> error + path_row list" where
  "pathRows pis [] = Inr []"
| "pathRows pis (p # ps) =
     (case pathRow pis p of
        Inl e \<Rightarrow> Inl e
      | Inr r \<Rightarrow> (case pathRows pis ps of Inl e \<Rightarrow> Inl e | Inr rs \<Rightarrow> Inr (r # rs)))"

definition processPathIntentData :: "item list \<Rightarrow> error + path_row list" where
  "processPathIntentData data =
     (case pathIntents data of
        Inl e \<Rightarrow> Inl e
      | Inr st \<Rightarrow>
          (case pathRows (fst st) (snd st) of
             Inl e \<Rightarrow> Inl e
           | Inr pathIntentData \<Rightarrow> sort_desc total pathIntentData))"

subsection \<open>Difficulty analysis (\<open>processDifficultyData\<close>, lines 266 to 302)\<close>

text \<open>
  The loop over \<open>difficulty_type\<close> (lines 267 to 273) cannot throw, and its result
  \<open>typeCounts\<close> is independent of the rate: it is not part of the embedding. The
  sessions are then grouped as in \<open>processSessionData\<close>, which throws for the same
  keys; \<open>sessionsWithDifficulties\<close> is a \<open>Set\<close> of the \<open>session_id\<close> cells themselves.
\<close>

record difficulty_report =
  sessionsWithDifficulties :: nat
  totalSessions :: nat
  difficultyRate :: string

definition difficultyStep :: "jsval list \<Rightarrow> item \<Rightarrow> jsval list" where
  "difficultyStep s it = (if isTrue (has_difficulty it) then set_add s (session_id it) else s)"

definition processDifficultyData :: "item list \<Rightarrow> error + difficulty_report" where
  "processDifficultyData data =
     (case sessionQuestions data of
        Inl e \<Rightarrow> Inl e
      | Inr sq \<Rightarrow>
          (let swd = foldl difficultyStep [] data;
               rate = js_mul (js_div (Fin (of_nat (length swd)))
                                     (Fin (of_nat (length (Object_keys sq)))))
                             (Fin 100)
           in Inr \<lparr>sessionsWithDifficulties = length swd,
                   totalSessions = length (Object_keys sq),
                   difficultyRate = toFixed 1 rate\<rparr>))"

subsection \<open>Example questions (\<open>getExampleQuestions\<close>, lines 305 to 336)\<close>

text \<open>
  \<open>Math.random\<close> is a parameter: the sequence \<open>rnd\<close> of the numbers it returns, with the
  count of the calls made so far as state.
\<close>

text \<open>\<open>q.question && q.question.length > 10\<close>: only a string has a length.\<close>

definition hasContent :: "jsval \<Rightarrow> bool" where
  "hasContent v = (case v of JStr s \<Rightarrow> s \<noteq> [] \<and> 10 < length s | _ \<Rightarrow> False)"

text \<open>Lines 317 to 319 (and 329 to 331), for the rows of one category.\<close>

definition pickExample :: "rat \<Rightarrow> item list \<Rightarrow> jsval" where
  "pickExample r categoryQuestions =
     (let validQuestions = filter (\<lambda>q. hasContent (question q)) categoryQuestions;
          randomIndex = \<lfloor>r * of_nat (min (length validQuestions) 5)\<rfloor>
      in js_or (case at_index validQuestions randomIndex of
                  None \<Rightarrow> JUndefined
                | Some q \<Rightarrow> question q)
               (JStr ''No example available''))"

definition exampleStep ::
  "(nat \<Rightarrow> rat) \<Rightarrow> (item \<Rightarrow> jsval) \<Rightarrow> item list \<Rightarrow> jsval obj \<times> nat \<Rightarrow> string
   \<Rightarrow> jsval obj \<times> nat" where
  "exampleStep rnd field data st category =
     (let categoryQuestions = filter (\<lambda>it. field it = JStr category) data
      in if 0 < length categoryQuestions
         then (AList.update category (pickExample (rnd (snd st)) categoryQuestions) (fst st),
               snd st + 1)
         else st)"

record examples =
  intents :: "jsval obj"
  complexity :: "jsval obj"

definition getExampleQuestions :: "(nat \<Rightarrow> rat) \<Rightarrow> item list \<Rightarrow> examples" where
  "getExampleQuestions rnd data =
     (let si = foldl (exampleStep rnd user_intent data) ([], 0)
                 [''problem_solving'', ''knowledge_seeking'', ''decision_making''];
          sc = foldl (exampleStep rnd question_complexity data) ([], snd si)
                 [''beginner'', ''intermediate'', ''advanced'']
      in \<lparr>intents = fst si, complexity = fst sc\<rparr>)"

subsection \<open>Sample rows\<close>

text \<open>A row whose cells are all missing, and rows with some cells set.\<close>

definition blank :: item where
  "blank = \<lparr>session_id = JUndefined, question = JUndefined, user_intent = JUndefined,
            question_complexity = JUndefined, learning_path = JUndefined,
            has_follow_up_questions = JUndefined, has_difficulty = JUndefined,
            difficulty_type = JUndefined\<rparr>"

definition in_session :: "string \<Rightarrow> item" where
  "in_session s = blank\<lparr>session_id := JStr s\<rparr>"

definition on_path :: "string \<Rightarrow> string \<Rightarrow> item" where
  "on_path p i = blank\<lparr>learning_path := JStr p, user_intent := JStr i\<rparr>"

definition follow_up :: "jsval \<Rightarrow> item" where
  "follow_up v = blank\<lparr>has_follow_up_questions := v\<rparr>"

definition difficult :: "string \<Rightarrow> jsval \<Rightarrow> item" where
  "difficult s v = blank\<lparr>session_id := JStr s, has_difficulty := v\<rparr>"

definition asked :: "string \<Rightarrow> string \<Rightarrow> item" where
  "asked i q = blank\<lparr>user_intent := JStr i, question := JStr q\<rparr>"

definition sessions_1_2_3 :: "item list" where
  "sessions_1_2_3 =
     [in_session ''a'', in_session ''b'', in_session ''c'', in_session ''c'',
      in_session ''b'', in_session ''c'']"

definition sessions_1_2_3_4 :: "item list" where
  "sessions_1_2_3_4 = sessions_1_2_3 @ replicate 4 (in_session ''d'')"

text \<open>The number 7 and the string \<open>7\<close> are the same property key.\<close>

definition mixed_sessions :: "item list" where
  "mixed_sessions =
     [in_session ''a'', blank\<lparr>session_id := JNum ''7''\<rparr>, in_session ''a'', in_session ''7'']"

definition paths_A_none_B_B :: "item list" where
  "paths_A_none_B_B =
     [on_path ''A'' ''greeting'', on_path ''none'' ''greeting'', on_path ''B'' ''greeting'',
      on_path ''B'' ''validation'']"

definition two_sessions_one_difficult :: "item list" where
  "two_sessions_one_difficult =
     [difficult ''s1'' (JBool False), difficult ''s2'' (JStr ''True''),
      difficult ''s2'' (JBool True), difficult ''s1'' JNull]"

definition tied_intents :: "item list" where
  "tied_intents =
     [on_path ''P'' ''problem_solving'', on_path ''Q'' ''greeting'',
      on_path ''P'' ''knowledge_seeking'', on_path ''Q'' ''validation'',
      on_path ''Q'' ''greeting'']"

definition odd_paths :: "item list" where
  "odd_paths =
     [on_path ''None'' ''greeting'', on_path [] ''greeting'', on_path ''null'' ''greeting'',
      blank, on_path ''NULL'' ''greeting'']"

text \<open>Paths that look absent without being one of the two sentinels.\<close>

definition falsy_looking_paths :: "item list" where
  "falsy_looking_paths =
     [on_path '' '' ''greeting'', on_path ''None'' ''greeting'', on_path ''NULL'' ''greeting'']"

text \<open>
  Inputs with 23 of 80: the exact percentage is 28.75, and the double that the code
  computes, \<open>(23 / 80) * 100\<close>, lies just below it.
\<close>

definition follow_ups_23_of_80 :: "item list" where
  "follow_ups_23_of_80 =
     replicate 23 (follow_up (JBool True)) @ replicate 57 (follow_up (JBool False))"

definition paths_23_of_80 :: "item list" where
  "paths_23_of_80 =
     replicate 23 (on_path ''A'' ''greeting'') @ replicate 57 (on_path ''B'' ''greeting'')"

definition sessions_23_of_80 :: "item list" where
  "sessions_23_of_80 = map (\<lambda>i. difficult (decimal i) (JBool (i < 23))) [0..<80]"

subsection \<open>Notions used to state and prove the properties\<close>

text \<open>A key is plain when it does not name a member of \<open>Object.prototype\<close>.\<close>

definition plain_key :: "string \<Rightarrow> bool" where
  "plain_key k \<longleftrightarrow> k \<notin> set object_prototype_members"

text \<open>The property key of the session of a row.\<close>

definition session_key :: "item \<Rightarrow> string" where
  "session_key it = to_key (session_id it)"

text \<open>The distinct elements of a list in the order of their first occurrence.\<close>

definition first_occurrences :: "'a list \<Rightarrow> 'a list" where
  "first_occurrences xs = rev (remdups (rev xs))"

text \<open>
  A row that the learning path distribution counts: its \<open>learning_path\<close> is present
  (truthy) and is neither \<open>none\<close> nor \<open>null\<close>.
\<close>

definition countedPath :: "item \<Rightarrow> bool" where
  "countedPath it \<longleftrightarrow>
     truthy (learning_path it) \<and> learning_path it \<notin> {JStr ''none'', JStr ''null''}"

text \<open>
  The path under which the crosstab counts a row, if any: the trimmed \<open>learning_path\<close>
  of a row whose cell is a nonempty string, unless it is \<open>none\<close> or \<open>null\<close>.
\<close>

definition pathOf :: "item \<Rightarrow> string option" where
  "pathOf it =
     (case trimmedPath (learning_path it) of
        Inl e \<Rightarrow> None
      | Inr p \<Rightarrow> if p \<noteq> ''none'' \<and> p \<noteq> ''null'' then Some p else None)"

text \<open>The intent under which a row is counted, as a property key.\<close>

definition intentKey :: "item \<Rightarrow> string" where
  "intentKey it = to_key (js_or (user_intent it) (JStr ''unknown''))"

text \<open>The intents of the rows of a path, in input order.\<close>

definition intentsOf :: "item list \<Rightarrow> string \<Rightarrow> string list" where
  "intentsOf data p = map intentKey (filter (\<lambda>it. pathOf it = Some p) data)"

text \<open>
  The order in which \<open>Object.keys\<close> enumerates keys that were inserted in the order
  \<open>ks\<close>: the array indices first, ascending, then the other keys as inserted.
\<close>

definition key_order :: "string list \<Rightarrow> string list" where
  "key_order ks =
     sort_key digits_value (filter is_array_index ks) @ filter (\<lambda>k. \<not> is_array_index k) ks"

text \<open>
  Grouping and counting when no key names an inherited member: the groups of the
  rows by session key, and the tally of a list of keys.
\<close>

definition group_step :: "item list obj \<Rightarrow> item \<Rightarrow> item list obj" where
  "group_step sq it =
     (case map_of sq (session_key it) of
        None \<Rightarrow> AList.update (session_key it) [it] sq
      | Some g \<Rightarrow> AList.update (session_key it) (g @ [it]) sq)"

definition groups :: "item list \<Rightarrow> item list obj" where
  "groups data = foldl group_step [] data"

definition tally_step :: "nat obj \<Rightarrow> string \<Rightarrow> nat obj" where
  "tally_step c k = AList.update k ((case map_of c k of None \<Rightarrow> 0 | Some n \<Rightarrow> n) + 1) c"

definition tally :: "string list \<Rightarrow> nat obj" where
  "tally ks = foldl tally_step [] ks"

definition counted :: "nat obj \<Rightarrow> cval obj" where
  "counted c = map (\<lambda>p. (fst p, Count (snd p))) c"

text \<open>
  What the first loop of \<open>processPathIntentData\<close> has built after the rows \<open>data\<close>: the
  distinct valid paths, and under each of them the count of its intents.
\<close>

definition pathInv :: "item list \<Rightarrow> cval obj obj \<times> string list \<Rightarrow> bool" where
  "pathInv data st \<longleftrightarrow>
     distinct (snd st)
     \<and> set (snd st) = {p. \<exists>it \<in> set data. pathOf it = Some p}
     \<and> fst ` set (fst st) = set (snd st)
     \<and> (\<forall>p \<in> set (snd st). map_of (fst st) p = Some (foldl increment [] (intentsOf data p)))"

text \<open>The numeral with one digit after the point whose value is \<open>n / 10\<close>.\<close>

definition one_decimal :: "nat \<Rightarrow> string" where
  "one_decimal n = decimal (n div 10) @ ''.'' @ decimal (n mod 10)"

section \<open>Properties\<close>

subsection \<open>Follow-up analysis\<close>

lemma foldl_followUpStep:
  "foldl followUpStep c data =
     (fst c + length (filter (\<lambda>it. isTrue (has_follow_up_questions it)) data),
      snd c + length (filter (\<lambda>it. \<not> isTrue (has_follow_up_questions it)) data))"
  by (induction data arbitrary: c) (simp_all add: followUpStep_def)

lemma processFollowUpData_eq:
  "processFollowUpData data =
     [\<lparr>name = ''With Follow-ups'',
       val = length (filter (\<lambda>it. isTrue (has_follow_up_questions it)) data)\<rparr>,
      \<lparr>name = ''Without Follow-ups'',
       val = length (filter (\<lambda>it. \<not> isTrue (has_follow_up_questions it)) data)\<rparr>]"
  by (simp add: processFollowUpData_def foldl_followUpStep)

lemma isTrue_iff: "isTrue v \<longleftrightarrow> v \<in> {JBool True, JStr ''True''}"
  by (auto simp: isTrue_def)

text \<open>
  Claim C10. For every input, the empty one included, \<open>processFollowUpData\<close> returns
  exactly two entries, named \<open>With Follow-ups\<close> and \<open>Without Follow-ups\<close> in this order,
  and their values add up to the number of rows.
\<close>

theorem processFollowUpData_two_entries:
  "map name (processFollowUpData data) = [''With Follow-ups'', ''Without Follow-ups'']
   \<and> length (processFollowUpData data) = 2
   \<and> sum_list (map val (processFollowUpData data)) = length data"
  by (simp add: processFollowUpData_eq sum_length_filter_compl)

theorem processFollowUpData_two_entries_witness:
  "processFollowUpData [] =
     [\<lparr>name = ''With Follow-ups'', val = 0\<rparr>, \<lparr>name = ''Without Follow-ups'', val = 0\<rparr>]
   \<and> sum_list (map val (processFollowUpData
         [follow_up (JBool True), follow_up JNull, follow_up (JStr ''true'')])) = 3"
proof -
  have a: "processFollowUpData [] =
     [\<lparr>name = ''With Follow-ups'', val = 0\<rparr>, \<lparr>name = ''Without Follow-ups'', val = 0\<rparr>]"
    by (simp add: processFollowUpData_def)
  have b: "sum_list (map val (processFollowUpData
         [follow_up (JBool True), follow_up JNull, follow_up (JStr ''true'')])) = 3"
    using processFollowUpData_two_entries
            [of "[follow_up (JBool True), follow_up JNull, follow_up (JStr ''true'')]"]
    by simp
  from a b show ?thesis by blast
qed

subsection \<open>Example questions\<close>

lemma hasContent_iff: "hasContent v \<longleftrightarrow> (\<exists>s. v = JStr s \<and> 10 < length s)"
  by (cases v) (auto simp: hasContent_def)

lemma pickExample_none_valid:
  assumes "\<forall>q \<in> set qs. \<not> hasContent (question q)"
  shows "pickExample r qs = JStr ''No example available''"
proof -
  from assms have "filter (\<lambda>q. hasContent (question q)) qs = []"
    by (simp add: filter_empty_conv)
  then show ?thesis
    by (simp add: pickExample_def at_index_def js_or_def)
qed

lemma map_of_exampleStep:
  assumes "\<forall>r. pickExample r (filter (\<lambda>it. field it = JStr c) data) = v"
  shows "map_of (fst (exampleStep rnd field data st x)) c =
     (if x = c \<and> filter (\<lambda>it. field it = JStr c) data \<noteq> [] then Some v
      else map_of (fst st) c)"
  using assms by (simp add: exampleStep_def Let_def update_conv')

lemma map_of_foldl_exampleStep:
  assumes "\<forall>r. pickExample r (filter (\<lambda>it. field it = JStr c) data) = v"
  shows "map_of (fst (foldl (exampleStep rnd field data) st cats)) c =
     (if c \<in> set cats \<and> filter (\<lambda>it. field it = JStr c) data \<noteq> [] then Some v
      else map_of (fst st) c)"
proof (induction cats arbitrary: st)
  case Nil
  show ?case by simp
next
  case (Cons x cats)
  show ?case
    using Cons.IH [of "exampleStep rnd field data st x"]
      map_of_exampleStep [OF assms, of rnd st x]
    by auto
qed

lemma fallback_entry:
  assumes "\<forall>it \<in> set data. field it = JStr c \<longrightarrow> \<not> (\<exists>s. question it = JStr s \<and> 10 < length s)"
  shows "map_of (fst (foldl (exampleStep rnd field data) ([], n) cats)) c =
     (if c \<in> set cats \<and> (\<exists>it \<in> set data. field it = JStr c)
      then Some (JStr ''No example available'') else None)"
proof -
  have "\<forall>q \<in> set (filter (\<lambda>it. field it = JStr c) data). \<not> hasContent (question q)"
    using assms by (auto simp: hasContent_iff)
  then have "\<forall>r. pickExample r (filter (\<lambda>it. field it = JStr c) data)
                 = JStr ''No example available''"
    by (simp add: pickExample_none_valid)
  from map_of_foldl_exampleStep [OF this, of rnd "([], n)" cats]
  show ?thesis by (simp add: filter_empty_conv)
qed

text \<open>
  Claim C7, amended. For each category of the two fixed lists: if no row of the
  category has a question of more than 10 characters, the entry of the category is the
  fallback string \<open>No example available\<close> when at least one row has the category, and
  is absent when no row has it (the assignment is guarded by
  \<open>intentQuestions.length > 0\<close>). This holds for every random source, and no operation
  of the function can throw: the function is total, with no error result.
\<close>

theorem no_qualifying_examples:
  "((\<forall>it \<in> set data. user_intent it = JStr c \<longrightarrow>
        \<not> (\<exists>s. question it = JStr s \<and> 10 < length s)) \<longrightarrow>
     map_of (intents (getExampleQuestions rnd data)) c =
       (if c \<in> {''problem_solving'', ''knowledge_seeking'', ''decision_making''}
           \<and> (\<exists>it \<in> set data. user_intent it = JStr c)
        then Some (JStr ''No example available'') else None))
   \<and> ((\<forall>it \<in> set data. question_complexity it = JStr c \<longrightarrow>
        \<not> (\<exists>s. question it = JStr s \<and> 10 < length s)) \<longrightarrow>
     map_of (complexity (getExampleQuestions rnd data)) c =
       (if c \<in> {''beginner'', ''intermediate'', ''advanced''}
           \<and> (\<exists>it \<in> set data. question_complexity it = JStr c)
        then Some (JStr ''No example available'') else None))"
proof (intro conjI impI)
  assume "\<forall>it \<in> set data. user_intent it = JStr c \<longrightarrow>
        \<not> (\<exists>s. question it = JStr s \<and> 10 < length s)"
  from fallback_entry [OF this, of rnd 0
         "[''problem_solving'', ''knowledge_seeking'', ''decision_making'']"]
  show "map_of (intents (getExampleQuestions rnd data)) c =
       (if c \<in> {''problem_solving'', ''knowledge_seeking'', ''decision_making''}
           \<and> (\<exists>it \<in> set data. user_intent it = JStr c)
        then Some (JStr ''No example available'') else None)"
    by (simp add: getExampleQuestions_def Let_def del: foldl_Cons)
next
  assume "\<forall>it \<in> set data. question_complexity it = JStr c \<longrightarrow>
        \<not> (\<exists>s. question it = JStr s \<and> 10 < length s)"
  from fallback_entry [OF this, of rnd _ "[''beginner'', ''intermediate'', ''advanced'']"]
  show "map_of (complexity (getExampleQuestions rnd data)) c =
       (if c \<in> {''beginner'', ''intermediate'', ''advanced''}
           \<and> (\<exists>it \<in> set data. question_complexity it = JStr c)
        then Some (JStr ''No example available'') else None)"
    by (simp add: getExampleQuestions_def Let_def del: foldl_Cons)
qed

theorem no_qualifying_examples_witness:
  "map_of (intents (getExampleQuestions (\<lambda>n. 0)
       [asked ''problem_solving'' ''Hi'', asked ''greeting'' ''Good morning to you'']))
     ''problem_solving'' = Some (JStr ''No example available'')
   \<and> map_of (intents (getExampleQuestions (\<lambda>n. 0)
       [asked ''problem_solving'' ''Hi'', asked ''greeting'' ''Good morning to you'']))
     ''decision_making'' = None"
proof -
  let ?d = "[asked ''problem_solving'' ''Hi'', asked ''greeting'' ''Good morning to you'']"
  have h1: "\<forall>it \<in> set ?d. user_intent it = JStr ''problem_solving'' \<longrightarrow>
        \<not> (\<exists>s. question it = JStr s \<and> 10 < length s)"
    by (simp add: asked_def blank_def)
  have h2: "\<forall>it \<in> set ?d. user_intent it = JStr ''decision_making'' \<longrightarrow>
        \<not> (\<exists>s. question it = JStr s \<and> 10 < length s)"
    by (simp add: asked_def blank_def)
  have a: "map_of (intents (getExampleQuestions (\<lambda>n. 0) ?d)) ''problem_solving''
             = Some (JStr ''No example available'')"
    using no_qualifying_examples [of ?d "''problem_solving''" "\<lambda>n. 0", THEN conjunct1, THEN mp, OF h1]
    by (simp add: asked_def blank_def)
  have b: "map_of (intents (getExampleQuestions (\<lambda>n. 0) ?d)) ''decision_making'' = None"
    using no_qualifying_examples [of ?d "''decision_making''" "\<lambda>n. 0", THEN conjunct1, THEN mp, OF h2]
    by (simp add: asked_def blank_def)
  from a b show ?thesis by blast
qed

text \<open>
  Claim C7, as stated, fails: when no row has the category, zero rows qualify and the
  entry is absent, not the fallback string.
\<close>

theorem example_entry_absent:
  "map_of (intents (getExampleQuestions (\<lambda>n. 0) [asked ''greeting'' ''Good morning to you'']))
     ''problem_solving'' = None
   \<and> map_of (complexity (getExampleQuestions (\<lambda>n. 0) [])) ''beginner'' = None"
  by code_simp

subsection \<open>Binary64 arithmetic\<close>

lemma pow2_powi: "pow2 e = 2 powi e"
  by (simp add: pow2_def power_int_def field_simps)

lemma pow2_pos [simp]: "0 < pow2 e"
  by (simp add: pow2_powi)

lemma pow2_add: "pow2 (a + b) = pow2 a * pow2 b"
  by (simp add: pow2_powi power_int_add)

lemma pow2_diff: "pow2 (a - b) = pow2 a / pow2 b"
  by (simp add: pow2_powi power_int_diff)

lemma pow2_nat: "pow2 (int n) = 2 ^ n"
  by (simp add: pow2_def)

lemma pow2_mono: "a \<le> b \<Longrightarrow> pow2 a \<le> pow2 b"
  unfolding pow2_powi by (rule power_int_increasing) simp_all

lemma pow2_strict_mono: "a < b \<Longrightarrow> pow2 a < pow2 b"
  unfolding pow2_powi by (rule power_int_strict_increasing) simp_all

lemma pow2_le_iff: "pow2 a \<le> pow2 b \<longleftrightarrow> a \<le> b"
  using pow2_mono [of a b] pow2_strict_mono [of b a] by (cases "a \<le> b") auto

lemma pow2_less_iff: "pow2 a < pow2 b \<longleftrightarrow> a < b"
  using pow2_le_iff [of b a] by auto

lemma binade_bounds:
  assumes "0 < x"
  shows "pow2 (binade x) \<le> x" and "x < pow2 (binade x + 1)"
proof -
  define p where "p = fst (quotient_of x)"
  define q where "q = snd (quotient_of x)"
  have qpos: "0 < q" by (simp add: q_def quotient_of_denom_pos')
  have x: "x = of_int p / of_int q"
    by (rule quotient_of_div) (simp add: p_def q_def)
  have ppos: "0 < p" using assms qpos x by (simp add: zero_less_divide_iff)
  define k where "k = bitlen p - bitlen q"
  from bitlen_bounds [OF ppos] have p1: "2 ^ nat (bitlen p - 1) \<le> p" and p2: "p < 2 ^ nat (bitlen p)"
    by auto
  from bitlen_bounds [OF qpos] have q1: "2 ^ nat (bitlen q - 1) \<le> q" and q2: "q < 2 ^ nat (bitlen q)"
    by auto
  have bp: "1 \<le> bitlen p" using ppos by (auto simp: bitlen_alt_def)
  have bq: "1 \<le> bitlen q" using qpos by (auto simp: bitlen_alt_def)
  have P1: "pow2 (bitlen p - 1) \<le> of_int p"
  proof -
    have "(of_int (2 ^ nat (bitlen p - 1)) :: rat) \<le> of_int p" using p1 by (simp only: of_int_le_iff)
    moreover have "pow2 (bitlen p - 1) = 2 ^ nat (bitlen p - 1)" using bp by (simp add: pow2_def)
    ultimately show ?thesis by simp
  qed
  have P2: "of_int p < pow2 (bitlen p)"
  proof -
    have "(of_int p :: rat) < of_int (2 ^ nat (bitlen p))" using p2 by (simp only: of_int_less_iff)
    moreover have "pow2 (bitlen p) = 2 ^ nat (bitlen p)" using bp by (simp add: pow2_def)
    ultimately show ?thesis by simp
  qed
  have Q1: "pow2 (bitlen q - 1) \<le> of_int q"
  proof -
    have "(of_int (2 ^ nat (bitlen q - 1)) :: rat) \<le> of_int q" using q1 by (simp only: of_int_le_iff)
    moreover have "pow2 (bitlen q - 1) = 2 ^ nat (bitlen q - 1)" using bq by (simp add: pow2_def)
    ultimately show ?thesis by simp
  qed
  have Q2: "of_int q < pow2 (bitlen q)"
  proof -
    have "(of_int q :: rat) < of_int (2 ^ nat (bitlen q))" using q2 by (simp only: of_int_less_iff)
    moreover have "pow2 (bitlen q) = 2 ^ nat (bitlen q)" using bq by (simp add: pow2_def)
    ultimately show ?thesis by simp
  qed
  have qr: "(0::rat) < of_int q" using qpos by simp
  have lo: "pow2 (k - 1) \<le> x"
  proof -
    have "pow2 (k - 1) * of_int q \<le> pow2 (k - 1) * pow2 (bitlen q)"
      using Q2 by (simp add: mult_le_cancel_left_pos)
    also have "\<dots> = pow2 (bitlen p - 1)" by (simp add: k_def flip: pow2_add)
    also have "\<dots> \<le> of_int p" by (rule P1)
    finally show ?thesis using qr by (simp add: x pos_le_divide_eq)
  qed
  have hi: "x < pow2 (k + 1)"
  proof -
    have "of_int p < pow2 (bitlen p)" by (rule P2)
    also have "\<dots> = pow2 (k + 1) * pow2 (bitlen q - 1)" by (simp add: k_def flip: pow2_add)
    also have "\<dots> \<le> pow2 (k + 1) * of_int q"
      using Q1 by (simp add: mult_le_cancel_left_pos)
    finally show ?thesis using qr by (simp add: x pos_divide_less_eq)
  qed
  have b: "binade x = (if pow2 k \<le> x then k else k - 1)"
    by (simp add: binade_def Let_def k_def p_def q_def)
  show "pow2 (binade x) \<le> x" using lo by (simp add: b)
  show "x < pow2 (binade x + 1)" using hi by (auto simp: b)
qed

lemma binade_less:
  assumes "0 < x" and "x < pow2 n"
  shows "binade x < n"
proof -
  have "pow2 (binade x) < pow2 n" using binade_bounds(1) [OF assms(1)] assms(2) by simp
  then show ?thesis by (simp add: pow2_less_iff)
qed

lemma binade_ge:
  assumes "0 < x" and "pow2 n \<le> x"
  shows "n \<le> binade x"
proof -
  have "pow2 n < pow2 (binade x + 1)" using binade_bounds(2) [OF assms(1)] assms(2) by simp
  then show ?thesis by (simp add: pow2_less_iff)
qed

lemma round_even_of_int [simp]: "round_even (of_int m) = m"
  by (simp add: round_even_def)


lemma binary64_exact:
  assumes k: "0 < k" "k < 2 ^ 53" and j: "- 1074 \<le> j" "j \<le> 971"
  shows "binary64 (of_int k * pow2 j) = Fin (of_int k * pow2 j)"
proof -
  define x where "x = of_int k * pow2 j"
  have xpos: "0 < x" using k by (simp add: x_def)
  have "x < 2 ^ 53 * pow2 j"
  proof -
    have "(of_int k :: rat) < of_int (2 ^ 53)" using k(2) by (simp only: of_int_less_iff)
    then show ?thesis by (simp add: x_def)
  qed
  also have "\<dots> = pow2 (53 + j)" using pow2_add [of 53 j] pow2_nat [of 53] by simp
  finally have "binade x < 53 + j" by (rule binade_less [OF xpos])
  define e where "e = max (binade x - 52) (- 1074)"
  have ej: "e \<le> j" using \<open>binade x < 53 + j\<close> j by (simp add: e_def)
  have "x / pow2 e = of_int k * pow2 (j - e)" by (simp add: x_def pow2_diff)
  also have "pow2 (j - e) = of_int (2 ^ nat (j - e))" using ej by (simp add: pow2_def)
  finally have q: "x / pow2 e = of_int (k * 2 ^ nat (j - e))" by simp
  have m: "round_even (x / pow2 e) = k * 2 ^ nat (j - e)" unfolding q by (rule round_even_of_int)
  have inrange: "\<not> (971 < e \<or> (e = 971 \<and> 9007199254740992 \<le> k * 2 ^ nat (j - e)))"
    using ej j k by auto
  have recomposed: "of_int (k * 2 ^ nat (j - e)) * pow2 e = x"
    using q by (metis nonzero_eq_divide_eq pow2_pos less_irrefl)
  have "binary64 x = Fin (sgn x * of_int (k * 2 ^ nat (j - e)) * pow2 e)"
    using xpos inrange by (simp add: binary64_def Let_def m e_def [symmetric] del: of_int_mult of_int_power)
  also have "\<dots> = Fin x" using xpos recomposed by (simp add: mult.assoc del: of_int_mult of_int_power)
  finally show ?thesis by (simp add: x_def)
qed

lemma binary64_of_nat:
  assumes "n < 2 ^ 53"
  shows "binary64 (of_nat n) = Fin (of_nat n)"
proof (cases "n = 0")
  case True
  then show ?thesis by (simp add: binary64_def)
next
  case False
  have "int n < 2 ^ 53" using assms by (metis of_nat_less_iff of_nat_numeral of_nat_power)
  with False binary64_exact [of "int n" 0] show ?thesis by (simp add: pow2_def)
qed

lemma binary64_half:
  assumes "n < 2 ^ 53"
  shows "binary64 (of_nat n / 2) = Fin (of_nat n / 2)"
proof (cases "n = 0")
  case True
  then show ?thesis by (simp add: binary64_def)
next
  case False
  have "int n < 2 ^ 53" using assms by (metis of_nat_less_iff of_nat_numeral of_nat_power)
  with False binary64_exact [of "int n" "- 1"] show ?thesis by (simp add: pow2_def)
qed

lemma round_even_bound: "\<bar>of_int (round_even y) - y\<bar> \<le> 1 / 2"
proof -
  define f where "f = \<lfloor>y\<rfloor>"
  define d where "d = y - of_int f"
  have d: "0 \<le> d" "d < 1" unfolding d_def f_def by linarith+
  have y: "y = of_int f + d" by (simp add: d_def)
  have r: "round_even y = (if d < 1 / 2 then f else if 1 / 2 < d then f + 1
                            else if even f then f else f + 1)"
    by (simp add: round_even_def Let_def f_def d_def)
  have k: "round_even y = f \<and> d \<le> 1 / 2 \<or> round_even y = f + 1 \<and> 1 / 2 \<le> d"
    unfolding r by auto
  have "of_int (round_even y) - y = of_int (round_even y) - of_int f - d" by (simp add: d_def)
  with k d show ?thesis by (auto simp: abs_if)
qed

lemma pow2_nonzero [simp]: "pow2 e \<noteq> 0"
  by (simp add: pow2_powi)

lemma abs_two_step:
  fixes a b c k :: rat
  assumes "0 \<le> k"
  shows "\<bar>a - c * k\<bar> \<le> \<bar>a - b * k\<bar> + \<bar>b - c\<bar> * k"
proof -
  have "a - c * k = (a - b * k) + (b - c) * k" by (simp add: algebra_simps)
  then have "\<bar>a - c * k\<bar> \<le> \<bar>a - b * k\<bar> + \<bar>(b - c) * k\<bar>"
    by (simp only: abs_triangle_ineq)
  moreover have "\<bar>(b - c) * k\<bar> = \<bar>b - c\<bar> * \<bar>k\<bar>" by (rule abs_mult)
  ultimately show ?thesis using assms by simp
qed

lemma binary64_rel:
  assumes lo: "pow2 (- 1022) \<le> x" and hi: "x < pow2 1023"
  shows "\<exists>y. binary64 x = Fin y \<and> \<bar>y - x\<bar> \<le> x / 2 ^ 53"
proof -
  have xpos: "0 < x" using lo pow2_pos [of "- 1022"] by linarith
  define b where "b = binade x"
  have b1: "- 1022 \<le> b" unfolding b_def by (rule binade_ge [OF xpos lo])
  have b2: "b < 1023" unfolding b_def by (rule binade_less [OF xpos hi])
  define e where "e = b - 52"
  have e: "max (binade x - 52) (- 1074) = e" using b1 by (simp add: e_def b_def)
  define m where "m = round_even (x / pow2 e)"
  have e971: "\<not> (971 < e \<or> (e = 971 \<and> 9007199254740992 \<le> m))" using b2 by (simp add: e_def)
  have v: "binary64 x = Fin (of_int m * pow2 e)"
    using xpos e971 by (simp add: binary64_def Let_def abs_of_pos e m_def [symmetric])
  have "\<bar>of_int m - x / pow2 e\<bar> \<le> 1 / 2" unfolding m_def by (rule round_even_bound)
  then have "\<bar>of_int m - x / pow2 e\<bar> * pow2 e \<le> 1 / 2 * pow2 e"
    by (rule mult_right_mono) (simp add: less_imp_le)
  moreover have "\<bar>of_int m - x / pow2 e\<bar> * pow2 e = \<bar>of_int m * pow2 e - x\<bar>"
  proof -
    have "\<bar>of_int m - x / pow2 e\<bar> * pow2 e = \<bar>(of_int m - x / pow2 e) * pow2 e\<bar>"
      by (simp add: abs_mult less_imp_le)
    also have "(of_int m - x / pow2 e) * pow2 e = of_int m * pow2 e - x"
      by (simp add: left_diff_distrib)
    finally show ?thesis .
  qed
  moreover have "1 / 2 * pow2 e = pow2 b / 2 ^ 53"
  proof -
    have "pow2 b = pow2 e * pow2 52" unfolding e_def by (simp flip: pow2_add)
    also have "pow2 52 = 2 ^ 52" using pow2_nat [of 52] by simp
    finally show ?thesis by simp
  qed
  moreover have "pow2 b / 2 ^ 53 \<le> x / 2 ^ 53"
    using binade_bounds(1) [OF xpos] by (simp add: b_def divide_right_mono)
  ultimately have "\<bar>of_int m * pow2 e - x\<bar> \<le> x / 2 ^ 53" by linarith
  with v show ?thesis by blast
qed

lemma percent_error:
  assumes v: "0 < v" "v < 2 ^ 32" and t: "0 < t" "t < 2 ^ 32"
  shows "\<exists>y. js_mul (js_div (Fin (of_nat v)) (Fin (of_nat t))) (Fin 100) = Fin y
             \<and> 0 \<le> y
             \<and> \<bar>y - of_nat v / of_nat t * 100\<bar> \<le> 3 * (of_nat v / of_nat t * 100) / 2 ^ 53"
proof -
  define x :: rat where "x = of_nat v / of_nat t"
  have tr: "(0::rat) < of_nat t" "(of_nat t :: rat) < 2 ^ 32"
    using t by (simp, metis of_nat_less_iff of_nat_numeral of_nat_power)
  have vr: "(1::rat) \<le> of_nat v" "(of_nat v :: rat) < 2 ^ 32"
    using v by (simp, metis of_nat_less_iff of_nat_numeral of_nat_power)
  have p32: "pow2 32 = 2 ^ 32" "pow2 (- 32) = 1 / 2 ^ 32" by (simp_all add: pow2_def)
  have xlo: "pow2 (- 32) \<le> x"
  proof -
    have "1 / 2 ^ 32 \<le> 1 / (of_nat t :: rat)" using tr by (simp add: frac_le)
    also have "\<dots> \<le> of_nat v / of_nat t" using vr tr by (simp add: divide_right_mono)
    finally show ?thesis by (simp add: p32 x_def)
  qed
  have xhi: "x < pow2 32"
  proof -
    have "of_nat v / of_nat t \<le> (of_nat v :: rat) / 1"
      using t vr by (intro divide_left_mono) simp_all
    then show ?thesis using vr by (simp add: p32 x_def)
  qed
  have xpos: "0 < x" using xlo pow2_pos [of "- 32"] by linarith
  have "pow2 (- 1022) \<le> pow2 (- 32)" by (rule pow2_mono) simp
  then have l1: "pow2 (- 1022) \<le> x" using xlo by linarith
  have "pow2 32 \<le> pow2 1023" by (rule pow2_mono) simp
  then have h1: "x < pow2 1023" using xhi by linarith
  from binary64_rel [OF l1 h1] obtain q where
    q: "binary64 x = Fin q" and qe: "\<bar>q - x\<bar> \<le> x / 2 ^ 53" by blast
  have small: "x / 2 ^ 53 \<le> x / 2" using xpos by (simp add: field_simps)
  have qlo: "x / 2 \<le> q" using qe small by linarith
  have qhi: "q \<le> 2 * x" using qe small xpos by linarith
  have "pow2 (- 1022) \<le> pow2 (- 33)" by (rule pow2_mono) simp
  moreover have "pow2 (- 33) = pow2 (- 32) / 2" by (simp add: pow2_def)
  ultimately have l2: "pow2 (- 1022) \<le> q * 100" using qlo xlo pow2_pos [of "- 32"] by linarith
  have "pow2 40 \<le> pow2 1023" by (rule pow2_mono) simp
  moreover have "pow2 40 = 256 * pow2 32" by (simp add: pow2_def)
  ultimately have h2: "q * 100 < pow2 1023" using qhi xhi pow2_pos [of 32] by linarith
  from binary64_rel [OF l2 h2] obtain y where
    y: "binary64 (q * 100) = Fin y" and ye: "\<bar>y - q * 100\<bar> \<le> q * 100 / 2 ^ 53" by blast
  have tz: "(of_nat t :: rat) \<noteq> 0" using tr by simp
  have r: "js_mul (js_div (Fin (of_nat v)) (Fin (of_nat t))) (Fin 100) = Fin y"
    using tz q y by (simp add: x_def)
  have qpos: "0 < q" using qlo xpos by linarith
  have "q * 100 / 2 ^ 53 \<le> q * 100" using qpos by (simp add: field_simps)
  then have ypos: "0 \<le> y" using ye qpos by linarith
  have "\<bar>y - x * 100\<bar> \<le> \<bar>y - q * 100\<bar> + \<bar>q - x\<bar> * 100"
    by (rule abs_two_step) simp
  also have "\<dots> \<le> q * 100 / 2 ^ 53 + x / 2 ^ 53 * 100"
  proof (rule add_mono [OF ye])
    show "\<bar>q - x\<bar> * 100 \<le> x / 2 ^ 53 * 100" using qe by (intro mult_right_mono) simp_all
  qed
  also have "\<dots> \<le> 2 * x * 100 / 2 ^ 53 + x / 2 ^ 53 * 100"
    using qhi by (simp add: divide_right_mono)
  also have "\<dots> = 3 * (x * 100) / 2 ^ 53" by simp
  finally have "\<bar>y - x * 100\<bar> \<le> 3 * (x * 100) / 2 ^ 53" .
  with r ypos show ?thesis unfolding x_def by blast
qed

lemma nearest_decimal:
  fixes y :: rat
  assumes y: "0 \<le> y" and t: "0 < t"
    and close: "\<bar>y - of_nat v / of_nat t * 100\<bar> * (20 * of_nat t) < 1"
  shows "\<bar>of_nat (nat \<lfloor>y * 10 + 1 / 2\<rfloor>) / 10 - of_nat v / of_nat t * 100\<bar> \<le> (1 / 20 :: rat)"
proof -
  define n where "n = \<lfloor>y * 10 + 1 / 2\<rfloor>"
  define T :: rat where "T = of_nat t"
  define V :: rat where "V = of_nat v"
  define E where "E = V / T * 100"
  have Tpos: "0 < T" using t by (simp add: T_def)
  have npos: "0 \<le> n" unfolding n_def using y by simp
  have n1: "of_int n \<le> y * 10 + 1 / 2" and n2: "y * 10 + 1 / 2 < of_int n + 1"
    unfolding n_def by linarith+
  have ny: "\<bar>of_int n - y * 10\<bar> \<le> 1 / 2" using n1 n2 by linarith
  have c: "\<bar>y - E\<bar> * (20 * T) < 1" using close unfolding E_def T_def V_def .
  have "\<bar>of_int n - E * 10\<bar> \<le> \<bar>of_int n - y * 10\<bar> + \<bar>y - E\<bar> * 10"
    by (rule abs_two_step) simp
  then have "\<bar>of_int n - E * 10\<bar> * (2 * T)
      \<le> (\<bar>of_int n - y * 10\<bar> + \<bar>y - E\<bar> * 10) * (2 * T)"
    using Tpos by (intro mult_right_mono) simp_all
  also have "\<dots> = \<bar>of_int n - y * 10\<bar> * (2 * T) + \<bar>y - E\<bar> * (20 * T)"
    by (simp add: algebra_simps)
  also have "\<dots> < 1 / 2 * (2 * T) + 1"
  proof -
    have "\<bar>of_int n - y * 10\<bar> * (2 * T) \<le> 1 / 2 * (2 * T)"
      using ny Tpos by (intro mult_right_mono) simp_all
    with c show ?thesis by linarith
  qed
  finally have b: "\<bar>of_int n - E * 10\<bar> * (2 * T) < T + 1" by simp
  have ET: "E * T = V * 100" using Tpos by (simp add: E_def)
  have d: "(of_int n - E * 10) * (2 * T) = 2 * of_int n * T - 2000 * V"
  proof -
    have "(of_int n - E * 10) * (2 * T) = 2 * of_int n * T - 20 * (E * T)"
      by (simp add: algebra_simps)
    then show ?thesis by (simp add: ET)
  qed
  have "\<bar>of_int n - E * 10\<bar> * (2 * T) = \<bar>(of_int n - E * 10) * (2 * T)\<bar>"
    using Tpos by (simp add: abs_mult)
  then have "\<bar>2 * of_int n * T - 2000 * V\<bar> < T + 1" using b by (simp only: d)
  moreover have "2 * of_int n * T - 2000 * V = of_int (2 * n * int t - 2000 * int v)"
    by (simp add: T_def V_def)
  moreover have "T + 1 = of_int (int t + 1)" by (simp add: T_def)
  ultimately have "\<bar>of_int (2 * n * int t - 2000 * int v) :: rat\<bar> < of_int (int t + 1)"
    by (simp only:)
  then have "\<bar>2 * n * int t - 2000 * int v\<bar> < int t + 1"
    by (metis of_int_abs of_int_less_iff)
  then have "\<bar>2 * n * int t - 2000 * int v\<bar> \<le> int t" by simp
  then have "(of_int \<bar>2 * n * int t - 2000 * int v\<bar> :: rat) \<le> of_int (int t)"
    by (simp only: of_int_le_iff)
  then have i: "\<bar>2 * of_int n * T - 2000 * V\<bar> \<le> T" by (simp add: T_def V_def)
  have "of_int n / 10 - E = (of_int n - E * 10) * (2 * T) / (20 * T)"
    using Tpos by simp
  then have "\<bar>of_int n / 10 - E\<bar> = \<bar>2 * of_int n * T - 2000 * V\<bar> / (20 * T)"
    using Tpos by (simp only: d abs_divide)
  also have "\<dots> \<le> T / (20 * T)" using i Tpos by (simp add: divide_right_mono)
  also have "\<dots> = 1 / 20" using Tpos by simp
  finally have "\<bar>of_int n / 10 - E\<bar> \<le> 1 / 20" .
  moreover have "(of_nat (nat n) :: rat) = of_int n" using npos by simp
  ultimately show ?thesis unfolding n_def [symmetric] E_def T_def V_def by simp
qed

lemma digit_char_0: "digit_char 0 = CHR ''0''"
  by code_simp

lemma decimal_digit: "n < 10 \<Longrightarrow> decimal n = [digit_char n]"
  by (simp add: decimal.simps [of n])

lemma decimal_split: "10 \<le> n \<Longrightarrow> decimal n = decimal (n div 10) @ [digit_char (n mod 10)]"
  by (simp add: decimal.simps [of n])

lemma length_decimal: "0 < length (decimal n)"
  by (simp add: decimal.simps [of n])

lemma toFixed_Fin:
  assumes "0 < f" and "0 \<le> x"
  shows "toFixed f (Fin x) =
     (let m0 = replicate (f + 1 - length (decimal (nat \<lfloor>x * 10 ^ f + 1 / 2\<rfloor>))) (CHR ''0'')
                 @ decimal (nat \<lfloor>x * 10 ^ f + 1 / 2\<rfloor>)
      in take (length m0 - f) m0 @ ''.'' @ drop (length m0 - f) m0)"
  using assms by (simp add: toFixed_def Let_def abs_of_nonneg)

lemma toFixed_one_decimal:
  assumes "0 \<le> y"
  shows "toFixed 1 (Fin y) = one_decimal (nat \<lfloor>y * 10 + 1 / 2\<rfloor>)"
proof -
  define n where "n = nat \<lfloor>y * 10 + 1 / 2\<rfloor>"
  define m0 where "m0 = replicate (1 + 1 - length (decimal n)) (CHR ''0'') @ decimal n"
  have "toFixed 1 (Fin y) =
     (let m0 = replicate (1 + 1 - length (decimal (nat \<lfloor>y * 10 ^ 1 + 1 / 2\<rfloor>))) (CHR ''0'')
                 @ decimal (nat \<lfloor>y * 10 ^ 1 + 1 / 2\<rfloor>)
      in take (length m0 - 1) m0 @ ''.'' @ drop (length m0 - 1) m0)"
    by (rule toFixed_Fin [OF _ assms]) simp
  then have s: "toFixed 1 (Fin y) = take (length m0 - 1) m0 @ ''.'' @ drop (length m0 - 1) m0"
    unfolding Let_def power_one_right n_def [symmetric] m0_def [symmetric] .
  show ?thesis
  proof (cases "n < 10")
    case True
    then have "m0 = [CHR ''0'', digit_char n]" by (simp add: m0_def decimal_digit)
    moreover have "one_decimal n = [CHR ''0''] @ ''.'' @ [digit_char n]"
      using True by (simp add: one_decimal_def decimal_digit digit_char_0)
    ultimately show ?thesis unfolding n_def [symmetric] s by simp
  next
    case False
    then have d: "decimal n = decimal (n div 10) @ [digit_char (n mod 10)]"
      by (simp add: decimal_split)
    have l: "0 < length (decimal (n div 10))" by (rule length_decimal)
    have m: "m0 = decimal (n div 10) @ [digit_char (n mod 10)]"
      using l by (cases "decimal (n div 10)") (simp_all add: m0_def d)
    have "decimal (n mod 10) = [digit_char (n mod 10)]" by (simp add: decimal_digit)
    then have "one_decimal n = decimal (n div 10) @ ''.'' @ [digit_char (n mod 10)]"
      by (simp add: one_decimal_def)
    then show ?thesis unfolding n_def [symmetric] s m by simp
  qed
qed

lemma percentage_nearest:
  assumes v: "v < 2 ^ 32" and t: "0 < t" "t < 2 ^ 32"
  shows "\<exists>n. toFixed 1 (js_mul (js_div (Fin (of_nat v)) (Fin (of_nat t))) (Fin 100))
               = one_decimal n
             \<and> \<bar>of_nat n / 10 - of_nat v / of_nat t * 100\<bar> \<le> (1 / 20 :: rat)"
proof (cases "v = 0")
  case True
  have "toFixed 1 (js_mul (js_div (Fin (of_nat v)) (Fin (of_nat t))) (Fin 100)) = toFixed 1 (Fin 0)"
    using True t by (simp add: binary64_def)
  also have "\<dots> = one_decimal 0" using toFixed_one_decimal [of 0] by simp
  finally show ?thesis using True by (intro exI [of _ 0]) simp
next
  case False
  then have vpos: "0 < v" by simp
  from percent_error [OF vpos v t] obtain y where
    r: "js_mul (js_div (Fin (of_nat v)) (Fin (of_nat t))) (Fin 100) = Fin y"
    and ypos: "0 \<le> y"
    and err: "\<bar>y - of_nat v / of_nat t * 100\<bar> \<le> 3 * (of_nat v / of_nat t * 100) / 2 ^ 53"
    by blast
  define T :: rat where "T = of_nat t"
  define V :: rat where "V = of_nat v"
  have Tpos: "0 < T" using t by (simp add: T_def)
  have Vlt: "V < 2 ^ 32" unfolding V_def using v
    by (metis of_nat_less_iff of_nat_numeral of_nat_power)
  have Vpos: "0 \<le> V" by (simp add: V_def)
  have "\<bar>y - V / T * 100\<bar> * (20 * T) \<le> 3 * (V / T * 100) / 2 ^ 53 * (20 * T)"
    using err Tpos unfolding T_def V_def by (intro mult_right_mono) simp_all
  also have "\<dots> = 6000 * V / 2 ^ 53" using Tpos by simp
  also have "\<dots> < 1" using Vlt by simp
  finally have close: "\<bar>y - of_nat v / of_nat t * 100\<bar> * (20 * of_nat t) < 1"
    by (simp add: T_def V_def)
  have "toFixed 1 (js_mul (js_div (Fin (of_nat v)) (Fin (of_nat t))) (Fin 100))
          = one_decimal (nat \<lfloor>y * 10 + 1 / 2\<rfloor>)"
    unfolding r by (rule toFixed_one_decimal [OF ypos])
  with nearest_decimal [OF ypos t(1) close] show ?thesis by blast
qed

subsection \<open>Session analysis on the input without rows\<close>

lemma medianOfCounts_empty: "medianOfCounts [] = Inr ''NaN''"
  by (simp add: medianOfCounts_def at_index_def toFixed_def)

text \<open>
  Claim C6, as stated, fails: on the input without rows the median that the report
  carries for display is the string \<open>NaN\<close>, not an absent value.
\<close>

theorem processSessionData_empty_median_NaN:
  "map_sum id medianQuestionsPerSession (processSessionData []) = Inr ''NaN''"
  by (simp add: processSessionData_def sessionQuestions_def Object_entries_def
        Object_keys_def medianOfCounts_empty)

text \<open>
  Claim C6, amended. On the input without rows \<open>processSessionData\<close> does not throw; it
  returns the session count 0, no per-session counts, and the median string \<open>NaN\<close>
  (the sum of two missing array elements, halved and formatted).
\<close>

theorem processSessionData_empty:
  "processSessionData [] =
     Inr \<lparr>sessionsCount = 0, questionsPerSession = [], medianQuestionsPerSession = ''NaN''\<rparr>"
  by (simp add: processSessionData_def sessionQuestions_def Object_entries_def
        Object_keys_def medianOfCounts_empty)

subsection \<open>Session analysis\<close>

lemma update_absent: "map_of al k = None \<Longrightarrow> AList.update k v al = al @ [(k, v)]"
  by (induction al) (auto split: if_splits)

lemma mset_concat_update:
  "map_of al k = Some g \<Longrightarrow>
     mset (concat (map snd (AList.update k g' al))) + mset g
       = mset (concat (map snd al)) + mset g'"
  by (induction al) (auto split: if_splits)

lemma mset_Object_entries: "mset (Object_entries ob) = mset ob"
  by (simp add: Object_entries_def)

lemma length_Object_entries: "length (Object_entries ob) = length ob"
  by (metis mset_Object_entries size_mset)

lemma set_Object_entries: "set (Object_entries ob) = set ob"
  by (metis mset_Object_entries set_mset_mset)

lemma length_Object_keys: "length (Object_keys ob) = length ob"
  by (simp add: Object_keys_def length_Object_entries)

lemma forEachE_snoc:
  "forEachE f s (xs @ [x]) = (case forEachE f s xs of Inl e \<Rightarrow> Inl e | Inr s' \<Rightarrow> f s' x)"
  by (induction xs arbitrary: s) (auto split: sum.splits)

text \<open>The groups of rows whose session keys are plain.\<close>

lemma groups_snoc: "groups (data @ [it]) = group_step (groups data) it"
  by (simp add: groups_def)

lemma map_of_group_step:
  "map_of (group_step sq it) =
     (map_of sq)(session_key it \<mapsto>
        (case map_of sq (session_key it) of None \<Rightarrow> [it] | Some g \<Rightarrow> g @ [it]))"
  by (simp add: group_step_def update_conv' split: option.split)

lemma map_of_groups:
  "map_of (groups data) k =
     (if k \<in> session_key ` set data then Some (filter (\<lambda>it. session_key it = k) data) else None)"
proof (induction data arbitrary: k rule: rev_induct)
  case Nil
  show ?case by (simp add: groups_def)
next
  case (snoc it data)
  show ?case
  proof (cases "k = session_key it")
    case True
    then show ?thesis
      by (auto simp: groups_snoc map_of_group_step snoc.IH [of "session_key it"]
            filter_empty_conv image_iff)
  next
    case False
    then show ?thesis
      by (simp add: groups_snoc map_of_group_step snoc.IH [of k])
  qed
qed

lemma distinct_group_step:
  "distinct (map fst sq) \<Longrightarrow> distinct (map fst (group_step sq it))"
  by (simp add: group_step_def distinct_update split: option.split)

lemma distinct_groups: "distinct (map fst (groups data))"
  by (induction data rule: rev_induct)
     (simp_all add: groups_snoc distinct_group_step, simp add: groups_def)

lemma mset_concat_group_step:
  "mset (concat (map snd (group_step sq it))) = mset (concat (map snd sq)) + {#it#}"
proof (cases "map_of sq (session_key it)")
  case None
  then show ?thesis by (simp add: group_step_def update_absent)
next
  case (Some g)
  from mset_concat_update [OF Some, of "g @ [it]"] Some show ?thesis
    by (simp add: group_step_def)
qed

lemma mset_concat_groups: "mset (concat (map snd (groups data))) = mset data"
  by (induction data rule: rev_induct)
     (simp_all add: groups_snoc mset_concat_group_step, simp add: groups_def)

lemma set_groups:
  "(k, g) \<in> set (groups data) \<longleftrightarrow>
     k \<in> session_key ` set data \<and> g = filter (\<lambda>it. session_key it = k) data"
proof -
  have "(k, g) \<in> set (groups data) \<longleftrightarrow> map_of (groups data) k = Some g"
    using distinct_groups [of data] by simp
  then show ?thesis by (auto simp: map_of_groups)
qed

lemma keys_groups: "fst ` set (groups data) = session_key ` set data"
proof (rule set_eqI)
  fix k
  have "k \<in> fst ` set (groups data) \<longleftrightarrow> (\<exists>g. (k, g) \<in> set (groups data))"
    by force
  then show "k \<in> fst ` set (groups data) \<longleftrightarrow> k \<in> session_key ` set data"
    by (simp add: set_groups)
qed

lemma length_groups: "length (groups data) = card (session_key ` set data)"
proof -
  have "card (set (map fst (groups data))) = length (map fst (groups data))"
    by (rule distinct_card) (rule distinct_groups)
  then show ?thesis by (simp add: keys_groups)
qed

lemma groups_empty_iff: "groups data = [] \<longleftrightarrow> data = []"
proof -
  have "length (groups data) = 0 \<longleftrightarrow> data = []"
    by (simp add: length_groups)
  then show ?thesis by simp
qed

text \<open>
  The first loop of \<open>processSessionData\<close> throws exactly when some session key names
  a member of \<open>Object.prototype\<close>; otherwise it builds the groups.
\<close>

lemma push_item_plain:
  assumes "plain_key (session_key it)"
  shows "push_item sq it = Inr (group_step sq it)"
  using assms
  by (simp add: push_item_def group_step_def obj_get_def plain_key_def session_key_def Let_def
        split: option.split)

lemma push_item_inherited:
  assumes "\<not> plain_key (session_key it)" and "map_of sq (session_key it) = None"
  shows "push_item sq it = Inl TypeError"
  using assms
  by (simp add: push_item_def obj_get_def plain_key_def session_key_def Let_def)

lemma sessionQuestions_eq:
  "sessionQuestions data =
     (if \<forall>it \<in> set data. plain_key (session_key it) then Inr (groups data) else Inl TypeError)"
proof (induction data rule: rev_induct)
  case Nil
  show ?case by (simp add: sessionQuestions_def groups_def)
next
  case (snoc it data)
  have step: "sessionQuestions (data @ [it])
      = (case sessionQuestions data of Inl e \<Rightarrow> Inl e | Inr sq \<Rightarrow> push_item sq it)"
    by (simp add: sessionQuestions_def forEachE_snoc)
  show ?case
  proof (cases "\<forall>it \<in> set data. plain_key (session_key it)")
    case False
    then show ?thesis by (auto simp: step snoc.IH)
  next
    case True
    show ?thesis
    proof (cases "plain_key (session_key it)")
      case plain: True
      with True show ?thesis
        by (simp add: step snoc.IH push_item_plain groups_snoc)
    next
      case inherited: False
      with True have "session_key it \<notin> session_key ` set data" by auto
      then have "map_of (groups data) (session_key it) = None"
        by (simp add: map_of_groups)
      with True inherited show ?thesis
        by (simp add: step snoc.IH push_item_inherited)
    qed
  qed
qed

lemma toFixed_fraction_digits:
  assumes "0 < f"
  shows "\<exists>a b. toFixed f (Fin x) = a @ ''.'' @ b \<and> length b = f"
proof -
  define m where "m = decimal (nat \<lfloor>\<bar>x\<bar> * 10 ^ f + 1 / 2\<rfloor>)"
  define m0 where "m0 = replicate (f + 1 - length m) (CHR ''0'') @ m"
  have len: "f < length m0" by (simp add: m0_def)
  have "toFixed f (Fin x)
          = ((if x < 0 then ''-'' else []) @ take (length m0 - f) m0) @ ''.'' @ drop (length m0 - f) m0"
    using assms by (simp add: toFixed_def Let_def m0_def m_def)
  moreover have "length (drop (length m0 - f) m0) = f" using len by simp
  ultimately show ?thesis by blast
qed

lemma questionsPerSession_counts:
  "map count_of (map (\<lambda>(sessionId, g). \<lparr>id_of = sessionId, count_of = length g\<rparr>) es)
     = map (\<lambda>p. length (snd p)) es"
  by (induction es) auto

lemma questionsPerSession_ids:
  "map id_of (map (\<lambda>(sessionId, g). \<lparr>id_of = sessionId, count_of = length g\<rparr>) es)
     = map fst es"
  by (induction es) auto

lemma sum_list_counts:
  "sum_list (map (\<lambda>p. length (snd p)) es) = length (concat (map snd es))"
  by (induction es) auto

lemma sum_list_Object_entries:
  "sum_list (map (\<lambda>p. length (snd p)) (Object_entries ob)) = length (concat (map snd ob))"
proof -
  have "sum_list (map (\<lambda>p. length (snd p)) (Object_entries ob))
          = sum_mset (image_mset (\<lambda>p. length (snd p)) (mset (Object_entries ob)))"
    by (metis mset_map sum_mset_sum_list)
  also have "\<dots> = sum_mset (image_mset (\<lambda>p. length (snd p)) (mset ob))"
    by (simp add: mset_Object_entries)
  also have "\<dots> = sum_list (map (\<lambda>p. length (snd p)) ob)"
    by (metis mset_map sum_mset_sum_list)
  finally show ?thesis by (simp add: sum_list_counts)
qed

text \<open>
  The median of a nonempty list of counts, each below \<open>2^32\<close>: the sum of the two
  middle counts and its half are doubles, so the arithmetic of the code is exact.
\<close>

lemma medianOfCounts_nonempty:
  assumes "counts \<noteq> []" and small: "\<forall>c \<in> set counts. c < 2 ^ 32"
  shows "medianOfCounts counts =
     Inr (toFixed 2
       (Fin (if odd (length counts) then of_nat (sort counts ! (length counts div 2))
             else (of_nat (sort counts ! (length counts div 2 - 1))
                   + of_nat (sort counts ! (length counts div 2))) / 2)))"
proof (cases "odd (length counts)")
  case True
  then have "length counts mod 2 \<noteq> 0" by presburger
  moreover have "length counts div 2 < length counts" using assms by simp
  ultimately show ?thesis using True
    by (simp add: medianOfCounts_def Let_def at_index_def)
next
  case False
  then have ev: "length counts mod 2 = 0" by presburger
  have pos: "0 < length counts div 2" using assms False
    by (cases "length counts") (auto elim: evenE)
  have lt: "length counts div 2 < length counts" using assms by simp
  have idx: "nat (int (length counts div 2) - 1) = length counts div 2 - 1" by simp
  define a where "a = sort counts ! (length counts div 2 - 1)"
  define b where "b = sort counts ! (length counts div 2)"
  have "a \<in> set (sort counts)" unfolding a_def using lt by (intro nth_mem) simp
  then have a32: "a < 2 ^ 32" using small by simp
  have "b \<in> set (sort counts)" unfolding b_def using lt by (intro nth_mem) simp
  then have b32: "b < 2 ^ 32" using small by simp
  have "a + b < 2 ^ 32 + 2 ^ 32" using a32 b32 by (rule add_strict_mono)
  also have "\<dots> \<le> (2 ^ 53 :: nat)" by simp
  finally have ab: "a + b < 2 ^ 53" .
  have s: "binary64 (of_nat a + of_nat b) = Fin (of_nat a + of_nat b)"
    using binary64_of_nat [OF ab] by simp
  have h: "binary64 ((of_nat a + of_nat b) / 2) = Fin ((of_nat a + of_nat b) / 2)"
    using binary64_half [OF ab] by simp
  have "at_index (sort counts) (int (length counts div 2) - 1) = Some a"
    using pos lt by (simp add: at_index_def idx a_def)
  moreover have "at_index (sort counts) (int (length counts div 2)) = Some b"
    using lt by (simp add: at_index_def b_def)
  ultimately have "medianOfCounts counts = Inr (toFixed 2 (Fin ((of_nat a + of_nat b) / 2)))"
    using ev by (simp add: medianOfCounts_def Let_def s h)
  then show ?thesis using False by (simp add: a_def b_def)
qed

lemma medianOfCounts_returns: "\<exists>m. medianOfCounts counts = Inr m"
proof (cases "length counts mod 2 = 0")
  case True
  then show ?thesis by (simp add: medianOfCounts_def Let_def)
next
  case False
  then have "counts \<noteq> []" by auto
  then have "length counts div 2 < length counts" by simp
  with False show ?thesis by (simp add: medianOfCounts_def Let_def at_index_def)
qed

lemma processSessionData_returns:
  assumes "\<forall>it \<in> set data. plain_key (session_key it)"
  shows "\<exists>m. processSessionData data =
     Inr \<lparr>sessionsCount = length (groups data),
          questionsPerSession =
            map (\<lambda>(sessionId, g). \<lparr>id_of = sessionId, count_of = length g\<rparr>)
              (Object_entries (groups data)),
          medianQuestionsPerSession = m\<rparr>"
proof -
  define qps where "qps = map (\<lambda>(sessionId, g). \<lparr>id_of = sessionId, count_of = length g\<rparr>)
                  (Object_entries (groups data))"
  from medianOfCounts_returns obtain m where
    med: "medianOfCounts (map count_of qps) = Inr m" by blast
  have sq: "sessionQuestions data = Inr (groups data)"
    using assms by (simp add: sessionQuestions_eq)
  show ?thesis
    unfolding processSessionData_def sq sum.case Let_def qps_def [symmetric] med
    by (simp add: length_Object_keys)
qed

lemma processSessionData_throws:
  assumes "\<not> (\<forall>it \<in> set data. plain_key (session_key it))"
  shows "processSessionData data = Inl TypeError"
proof -
  have "sessionQuestions data = Inl TypeError" using assms by (simp add: sessionQuestions_eq)
  then show ?thesis by (simp add: processSessionData_def)
qed

lemma group_sizes_small:
  assumes "length data < 2 ^ 32"
  shows "\<forall>c \<in> set (map (\<lambda>p. length (snd p)) (Object_entries (groups data))). c < 2 ^ 32"
proof
  fix c assume "c \<in> set (map (\<lambda>p. length (snd p)) (Object_entries (groups data)))"
  then have "c \<le> sum_list (map (\<lambda>p. length (snd p)) (Object_entries (groups data)))"
    by (simp add: member_le_sum_list)
  also have "\<dots> = length (concat (map snd (groups data)))" by (rule sum_list_Object_entries)
  also have "\<dots> = length data" by (metis mset_concat_groups size_mset)
  finally show "c < 2 ^ 32" using assms by simp
qed







subsection \<open>The follow-up rate\<close>

text \<open>
  Claim C4, as stated, fails: with 23 rows of 80 flagged the exact rate is 28.75,
  which rounds to \<open>28.8\<close>; the code computes the double \<open>(23 / 80) * 100\<close>, which lies
  just below 28.75, and displays \<open>28.7\<close>.
\<close>

theorem followUpRate_23_of_80:
  "followUpRate (processFollowUpData follow_ups_23_of_80) = Inr ''28.7''
   \<and> toFixed 1 (Fin (23 / 80 * 100)) = ''28.8''"
proof -
  have c: "processFollowUpData follow_ups_23_of_80 =
      [\<lparr>name = ''With Follow-ups'', val = 23\<rparr>, \<lparr>name = ''Without Follow-ups'', val = 57\<rparr>]"
    by code_simp
  have "followUpRate (processFollowUpData follow_ups_23_of_80) = Inr ''28.7''"
    unfolding c by code_simp
  moreover have "toFixed 1 (Fin (23 / 80 * 100)) = ''28.8''" by code_simp
  ultimately show ?thesis by blast
qed

text \<open>
  Claim C4, amended. A row counts as with follow-up exactly when its
  \<open>has_follow_up_questions\<close> is the boolean \<open>true\<close> or the string \<open>True\<close>, every other row
  counts as without; the displayed rate is \<open>toFixed(1)\<close> of the double
  \<open>(with / (with + without)) * 100\<close>. For a nonempty input (of fewer than \<open>2^32\<close> rows)
  it is a numeral with one digit after the point that differs from the exact share of
  the rows with follow-up, in percent, by at most 0.05: a nearest such numeral, where
  on a tie either neighbour may appear. The three rows \<open>true\<close>, \<open>"True"\<close>, \<open>false\<close> give
  \<open>66.7\<close>.
\<close>

theorem followUpRate_formula:
  "map val (processFollowUpData data) =
     [length (filter (\<lambda>it. has_follow_up_questions it \<in> {JBool True, JStr ''True''}) data),
      length (filter (\<lambda>it. has_follow_up_questions it \<notin> {JBool True, JStr ''True''}) data)]
   \<and> followUpRate (processFollowUpData data) =
       Inr (toFixed 1
         (js_mul
           (js_div
             (Fin (of_nat (length (filter
                (\<lambda>it. has_follow_up_questions it \<in> {JBool True, JStr ''True''}) data))))
             (Fin (of_nat
                (length (filter
                   (\<lambda>it. has_follow_up_questions it \<in> {JBool True, JStr ''True''}) data)
                 + length (filter
                   (\<lambda>it. has_follow_up_questions it \<notin> {JBool True, JStr ''True''}) data)))))
           (Fin 100)))
   \<and> (data \<noteq> [] \<and> length data < 2 ^ 32 \<longrightarrow>
        (\<exists>n. followUpRate (processFollowUpData data) = Inr (one_decimal n)
           \<and> \<bar>of_nat n / 10
               - of_nat (length (filter
                    (\<lambda>it. has_follow_up_questions it \<in> {JBool True, JStr ''True''}) data))
                 / of_nat (length data) * 100\<bar> \<le> (1 / 20 :: rat)))"
proof -
  define w where
    "w = length (filter (\<lambda>it. has_follow_up_questions it \<in> {JBool True, JStr ''True''}) data)"
  define wo where
    "wo = length (filter (\<lambda>it. has_follow_up_questions it \<notin> {JBool True, JStr ''True''}) data)"
  have total: "w + wo = length data"
    unfolding w_def wo_def by (rule sum_length_filter_compl)
  have a: "map val (processFollowUpData data) = [w, wo]"
    by (simp add: processFollowUpData_eq isTrue_iff w_def wo_def del: insert_iff)
  have b: "followUpRate (processFollowUpData data) =
       Inr (toFixed 1 (js_mul (js_div (Fin (of_nat w)) (Fin (of_nat (w + wo)))) (Fin 100)))"
    by (simp add: processFollowUpData_eq followUpRate_def at_index_def isTrue_iff w_def wo_def
          del: of_nat_add insert_iff js_mul.simps js_div.simps)
  have c: "\<exists>n. followUpRate (processFollowUpData data) = Inr (one_decimal n)
           \<and> \<bar>of_nat n / 10 - of_nat w / of_nat (length data) * 100\<bar> \<le> (1 / 20 :: rat)"
    if ne: "data \<noteq> []" and small: "length data < 2 ^ 32"
  proof -
    have "w \<le> length data" using total by simp
    then have w32: "w < 2 ^ 32" using small by simp
    have pos: "0 < length data" using ne by simp
    from percentage_nearest [OF w32 pos small] show ?thesis
      unfolding b total by simp
  qed
  from a b c show ?thesis unfolding w_def wo_def by blast
qed

theorem followUpRate_formula_witness:
  "length [follow_up (JBool True), follow_up (JStr ''True''), follow_up (JBool False)] = 3
   \<and> followUpRate (processFollowUpData
        [follow_up (JBool True), follow_up (JStr ''True''), follow_up (JBool False)])
       = Inr ''66.7''
   \<and> (\<exists>n. followUpRate (processFollowUpData
              [follow_up (JBool True), follow_up (JStr ''True''), follow_up (JBool False)])
            = Inr (one_decimal n)
          \<and> \<bar>of_nat n / 10 - 2 / 3 * 100\<bar> \<le> (1 / 20 :: rat))"
proof -
  let ?d = "[follow_up (JBool True), follow_up (JStr ''True''), follow_up (JBool False)]"
  have w: "length (filter (\<lambda>it. has_follow_up_questions it \<in> {JBool True, JStr ''True''}) ?d) = 2"
    by (simp add: follow_up_def blank_def)
  have "?d \<noteq> [] \<and> length ?d < 2 ^ 32" by simp
  with followUpRate_formula [of ?d]
  have "\<exists>n. followUpRate (processFollowUpData ?d) = Inr (one_decimal n)
           \<and> \<bar>of_nat n / 10
               - of_nat (length (filter
                    (\<lambda>it. has_follow_up_questions it \<in> {JBool True, JStr ''True''}) ?d))
                 / of_nat (length ?d) * 100\<bar> \<le> (1 / 20 :: rat)"
    by blast
  then have a: "\<exists>n. followUpRate (processFollowUpData ?d) = Inr (one_decimal n)
           \<and> \<bar>of_nat n / 10 - 2 / 3 * 100\<bar> \<le> (1 / 20 :: rat)"
    unfolding w by simp
  have b: "followUpRate (processFollowUpData ?d) = Inr ''66.7''" by code_simp
  from a b show ?thesis by simp
qed

subsection \<open>Difficulty analysis\<close>

lemma set_foldl_difficultyStep:
  "set (foldl difficultyStep s data)
     = set s \<union> session_id ` {it \<in> set data. isTrue (has_difficulty it)}"
  by (induction data arbitrary: s) (auto simp: difficultyStep_def set_add_def)

lemma distinct_foldl_difficultyStep:
  "distinct s \<Longrightarrow> distinct (foldl difficultyStep s data)"
  by (induction data arbitrary: s) (auto simp: difficultyStep_def set_add_def)

lemma length_foldl_difficultyStep:
  "length (foldl difficultyStep [] data)
     = card (session_id ` {it \<in> set data. isTrue (has_difficulty it)})"
proof -
  have "distinct (foldl difficultyStep [] data)"
    by (rule distinct_foldl_difficultyStep) simp
  then have "length (foldl difficultyStep [] data) = card (set (foldl difficultyStep [] data))"
    by (simp add: distinct_card)
  then show ?thesis by (simp add: set_foldl_difficultyStep)
qed

lemma card_image_rows: "card (f ` {it \<in> set data. P it}) \<le> length data"
proof -
  have "card (f ` {it \<in> set data. P it}) \<le> card {it \<in> set data. P it}"
    by (rule card_image_le) simp
  also have "\<dots> \<le> card (set data)" by (rule card_mono) auto
  also have "\<dots> \<le> length data" by (rule card_length)
  finally show ?thesis .
qed




text \<open>
  The \<open>Set\<close> of flagged sessions holds the \<open>session_id\<close> cells, the session count is the
  number of property keys: two cells of different types with the same key (here the
  missing cell \<open>null\<close> and the string \<open>null\<close>) are two members of the set and one
  session.
\<close>

lemma difficulty_rate_cells_sharing_a_key:
  "processDifficultyData
     [blank\<lparr>session_id := JNull, has_difficulty := JBool True\<rparr>, difficult ''null'' (JBool True)]
   = Inr \<lparr>sessionsWithDifficulties = 2, totalSessions = 1, difficultyRate = ''200.0''\<rparr>"
  by code_simp

subsection \<open>Counting keys into a dictionary\<close>

lemma first_occurrences_snoc:
  "first_occurrences (xs @ [x]) =
     (if x \<in> set xs then first_occurrences xs else first_occurrences xs @ [x])"
  by (simp add: first_occurrences_def)

lemma set_first_occurrences [simp]: "set (first_occurrences xs) = set xs"
  by (simp add: first_occurrences_def)

lemma distinct_first_occurrences [simp]: "distinct (first_occurrences xs)"
  by (simp add: first_occurrences_def)

lemma tally_snoc: "tally (ks @ [k]) = tally_step (tally ks) k"
  by (simp add: tally_def)

lemma map_of_tally_step:
  "map_of (tally_step c k) = (map_of c)(k \<mapsto> (case map_of c k of None \<Rightarrow> 0 | Some n \<Rightarrow> n) + 1)"
  by (simp add: tally_step_def update_conv')

lemma keys_tally_step:
  "map fst (tally_step c k) = (if k \<in> set (map fst c) then map fst c else map fst c @ [k])"
  by (simp add: tally_step_def update_keys)

lemma sum_list_update:
  "map_of al k = Some v \<Longrightarrow>
     sum_list (map snd (AList.update k v' al)) + v = sum_list (map snd al) + (v' :: nat)"
  by (induction al) (auto split: if_splits)

lemma sum_list_tally_step:
  "sum_list (map snd (tally_step c k)) = sum_list (map snd c) + 1"
proof (cases "map_of c k")
  case None
  then show ?thesis by (simp add: tally_step_def update_absent)
next
  case (Some v)
  from sum_list_update [OF Some, of "v + 1"] Some show ?thesis
    by (simp add: tally_step_def)
qed

lemma keys_tally: "map fst (tally ks) = first_occurrences ks"
  by (induction ks rule: rev_induct)
     (simp_all add: tally_snoc keys_tally_step first_occurrences_snoc,
      simp add: first_occurrences_def tally_def)

lemma map_of_tally:
  "map_of (tally ks) k = (if k \<in> set ks then Some (count_list ks k) else None)"
proof (induction ks arbitrary: k rule: rev_induct)
  case Nil
  show ?case by (simp add: tally_def)
next
  case (snoc x ks)
  show ?case
  proof (cases "k = x")
    case True
    then show ?thesis
      by (simp add: tally_snoc map_of_tally_step snoc.IH [of x])
  next
    case False
    then show ?thesis
      by (simp add: tally_snoc map_of_tally_step snoc.IH [of k])
  qed
qed

lemma sum_list_tally: "sum_list (map snd (tally ks)) = length ks"
  by (induction ks rule: rev_induct)
     (simp_all add: tally_snoc sum_list_tally_step, simp add: tally_def)

lemma entry_tally:
  "(k, v) \<in> set (tally ks) \<longleftrightarrow> k \<in> set ks \<and> v = count_list ks k"
proof -
  have "distinct (map fst (tally ks))" by (simp add: keys_tally)
  then have "(k, v) \<in> set (tally ks) \<longleftrightarrow> map_of (tally ks) k = Some v"
    by simp
  then show ?thesis by (auto simp: map_of_tally)
qed

lemma tally_positive: "(k, v) \<in> set (tally ks) \<Longrightarrow> 0 < v"
  by (metis count_list_0_iff entry_tally gr0I)

lemma count_list_length_filter: "count_list (map f xs) k = length (filter (\<lambda>x. f x = k) xs)"
  by (induction xs) simp_all

text \<open>
  When no key names an inherited member, \<open>counts[k] = (counts[k] || 0) + 1\<close> is the
  tally of the keys, every value a number.
\<close>

lemma map_of_counted: "map_of (counted c) k = map_option Count (map_of c k)"
  by (induction c) (auto simp: counted_def)

lemma counted_update: "counted (AList.update k v c) = AList.update k (Count v) (counted c)"
  by (induction c) (auto simp: counted_def)

lemma map_fst_counted: "map fst (counted c) = map fst c"
  by (simp add: counted_def comp_def)

lemma map_snd_counted: "map snd (counted c) = map Count (map snd c)"
  by (simp add: counted_def comp_def)

lemma increment_counted:
  assumes "plain_key k"
  shows "increment (counted c) k = counted (tally_step c k)"
  using assms
  by (cases "map_of c k")
     (simp_all add: increment_def obj_get_def map_of_counted plain_key_def tally_step_def
        counted_update)

lemma foldl_increment_counted:
  assumes "\<forall>k \<in> set ks. plain_key k"
  shows "foldl increment (counted c) ks = counted (foldl tally_step c ks)"
  using assms by (induction ks arbitrary: c) (simp_all add: increment_counted)

lemma foldl_increment_plain:
  assumes "\<forall>k \<in> set ks. plain_key k"
  shows "foldl increment [] ks = counted (tally ks)"
  using foldl_increment_counted [OF assms, of "[]"] by (simp add: counted_def tally_def)

lemma map_insort_key:
  "map g (insort_key (\<lambda>p. f (g p)) x xs) = insort_key f (g x) (map g xs)"
  by (induction xs) simp_all

lemma map_sort_key_comp:
  "map g (sort_key (\<lambda>p. f (g p)) xs) = sort_key f (map g xs)"
  by (induction xs) (simp_all add: map_insort_key)

lemma Object_entries_counted:
  "Object_entries (counted c) = counted (Object_entries c)"
proof -
  have "sort_key (\<lambda>p. digits_value (fst p))
          (map (\<lambda>p. (fst p, Count (snd p))) (filter (\<lambda>p. is_array_index (fst p)) c))
        = map (\<lambda>p. (fst p, Count (snd p)))
            (sort_key (\<lambda>p. digits_value (fst p)) (filter (\<lambda>p. is_array_index (fst p)) c))"
    using map_sort_key_comp
      [of "\<lambda>p. (fst p, Count (snd p))" "\<lambda>p. digits_value (fst p)"
          "filter (\<lambda>p. is_array_index (fst p)) c"]
    by simp
  then show ?thesis
    by (simp add: Object_entries_def counted_def filter_map comp_def)
qed

lemma foldl_js_plus_counts:
  "foldl js_plus (Count a) (map Count xs) = Count (a + sum_list xs)"
  by (induction xs arbitrary: a) simp_all

lemma total_counted:
  "foldl js_plus (Count 0) (Object_values (counted c)) = Count (sum_list (map snd c))"
proof -
  have "sum_list (map snd (Object_entries c)) = sum_mset (image_mset snd (mset (Object_entries c)))"
    by (metis mset_map sum_mset_sum_list)
  also have "\<dots> = sum_mset (image_mset snd (mset c))"
    by (simp add: mset_Object_entries)
  also have "\<dots> = sum_list (map snd c)"
    by (metis mset_map sum_mset_sum_list)
  finally have s: "sum_list (map snd (Object_entries c)) = sum_list (map snd c)" .
  have "Object_values (counted c) = map Count (map snd (Object_entries c))"
    by (simp only: Object_values_def Object_entries_counted map_snd_counted)
  then have "foldl js_plus (Count 0) (Object_values (counted c))
      = Count (0 + sum_list (map snd (Object_entries c)))"
    by (simp only: foldl_js_plus_counts)
  then show ?thesis by (simp only: s add_0)
qed

lemma sorted_desc_sort_key:
  "sorted_wrt (\<lambda>a b. f b \<le> f a) (sort_key (\<lambda>e. - int (f e)) xs)"
proof -
  have "sorted (map (\<lambda>e. - int (f e)) (sort_key (\<lambda>e. - int (f e)) xs))"
    by (rule sorted_sort_key)
  then show ?thesis by (simp add: sorted_map)
qed

lemma sort_desc_counts:
  assumes "\<forall>x \<in> set xs. is_count (f x)"
  shows "sort_desc f xs = Inr (sort_key (\<lambda>x. - int (the_count (f x))) xs)"
  using assms by (simp add: sort_desc_def list_all_iff)

subsection \<open>Learning path distribution\<close>

lemma learningPathStep_eq:
  "learningPathStep counts it =
     (if countedPath it then increment counts (to_key (learning_path it)) else counts)"
  by (auto simp: learningPathStep_def countedPath_def js_or_def Let_def)

lemma learningPathCounts_eq:
  "learningPathCounts data =
     foldl increment [] (map (\<lambda>it. to_key (learning_path it)) (filter countedPath data))"
  unfolding learningPathCounts_def
  by (induction data rule: rev_induct) (simp_all add: learningPathStep_eq)

text \<open>
  The percentage is computed in doubles: with 23 rows of path A among 80 counted rows
  the exact percentage of A is 28.75, which rounds to \<open>28.8\<close>, and the code reports
  \<open>28.7\<close>, from the double \<open>(23 / 80) * 100\<close>.
\<close>

lemma learning_path_23_of_80:
  "map_sum id (map (\<lambda>e. (name_of e, value_of e, percentage e)))
       (processLearningPathData paths_23_of_80)
     = Inr [(''B'', Count 57, ''71.3''), (''A'', Count 23, ''28.7'')]
   \<and> toFixed 1 (Fin (23 / 80 * 100)) = ''28.8''"
proof -
  have c: "learningPathCounts paths_23_of_80 = [(''A'', Count 23), (''B'', Count 57)]"
    by code_simp
  have t: "foldl js_plus (Count 0) (Object_values [(''A'', Count 23), (''B'', Count 57)])
             = Count 80"
    by code_simp
  have e: "Object_entries [(''A'', Count 23), (''B'', Count 57)]
             = [(''A'', Count 23), (''B'', Count 57)]"
    by code_simp
  have pA: "toFixed 1 (js_mul (js_div (cnum (Count 23)) (cnum (Count 80))) (Fin 100)) = ''28.7''"
    by code_simp
  have pB: "toFixed 1 (js_mul (js_div (cnum (Count 57)) (cnum (Count 80))) (Fin 100)) = ''71.3''"
    by code_simp
  have s: "sort_desc value_of
             [\<lparr>name_of = ''A'', value_of = Count 23, percentage = ''28.7''\<rparr>,
              \<lparr>name_of = ''B'', value_of = Count 57, percentage = ''71.3''\<rparr>]
           = Inr [\<lparr>name_of = ''B'', value_of = Count 57, percentage = ''71.3''\<rparr>,
                  \<lparr>name_of = ''A'', value_of = Count 23, percentage = ''28.7''\<rparr>]"
    by code_simp
  have "processLearningPathData paths_23_of_80
          = Inr [\<lparr>name_of = ''B'', value_of = Count 57, percentage = ''71.3''\<rparr>,
                 \<lparr>name_of = ''A'', value_of = Count 23, percentage = ''28.7''\<rparr>]"
    unfolding processLearningPathData_def Let_def c t e list.map prod.case pA pB s ..
  then have a: "map_sum id (map (\<lambda>e. (name_of e, value_of e, percentage e)))
       (processLearningPathData paths_23_of_80)
     = Inr [(''B'', Count 57, ''71.3''), (''A'', Count 23, ''28.7'')]"
    by simp
  have b: "toFixed 1 (Fin (23 / 80 * 100)) = ''28.8''" by code_simp
  from a b show ?thesis by blast
qed




subsection \<open>Learning path by intent\<close>

lemma trimmedPath_cases:
  "trimmedPath v =
     (if \<not> truthy v then Inr ''none''
      else case v of JStr s \<Rightarrow> Inr (js_trim s) | _ \<Rightarrow> Inl TypeError)"
  by (simp add: trimmedPath_def)

lemma pathOf_Some_iff:
  "pathOf it = Some p \<longleftrightarrow>
     (\<exists>s. learning_path it = JStr s \<and> s \<noteq> [] \<and> js_trim s \<notin> {''none'', ''null''}
          \<and> js_trim s = p)"
  by (cases "learning_path it") (auto simp: pathOf_def trimmedPath_def)

text \<open>A step of the first loop that does not end the run.\<close>

lemma pathIntentStep_Inr:
  assumes "pathIntentStep st it = Inr st'"
  shows "st' =
     (case pathOf it of
        None \<Rightarrow> st
      | Some p \<Rightarrow>
          (AList.update p
             (increment (case map_of (fst st) p of None \<Rightarrow> [] | Some ic \<Rightarrow> ic) (intentKey it))
             (fst st),
           set_add (snd st) p))"
  using assms
  by (auto simp: pathIntentStep_def pathOf_def intentKey_def obj_get_def Let_def
        split: sum.splits option.splits if_splits)

lemma pathIntentStep_returns:
  assumes "\<exists>q. trimmedPath (learning_path it) = Inr q"
    and "\<forall>p. pathOf it = Some p \<longrightarrow> plain_key p"
  shows "\<exists>st'. pathIntentStep st it = Inr st'"
  using assms
  by (auto simp: pathIntentStep_def pathOf_def obj_get_def plain_key_def Let_def
        split: sum.splits option.splits)

lemma intentsOf_snoc:
  "intentsOf (data @ [it]) p =
     intentsOf data p @ (if pathOf it = Some p then [intentKey it] else [])"
  by (simp add: intentsOf_def)

lemma intentsOf_empty_iff:
  "intentsOf data p = [] \<longleftrightarrow> \<not> (\<exists>it \<in> set data. pathOf it = Some p)"
  by (auto simp: intentsOf_def filter_empty_conv)

lemma pathInv_step:
  assumes inv: "pathInv data st" and step: "pathIntentStep st it = Inr st'"
  shows "pathInv (data @ [it]) st'"
proof (cases "pathOf it")
  case None
  with pathIntentStep_Inr [OF step] have "st' = st" by simp
  with inv None show ?thesis
    by (auto simp: pathInv_def intentsOf_snoc)
next
  case (Some q)
  define ic where "ic = (case map_of (fst st) q of None \<Rightarrow> [] | Some ic \<Rightarrow> ic)"
  from pathIntentStep_Inr [OF step] Some
  have st': "st' = (AList.update q (increment ic (intentKey it)) (fst st), set_add (snd st) q)"
    by (simp add: ic_def)
  have ic: "ic = foldl increment [] (intentsOf data q)"
  proof (cases "q \<in> set (snd st)")
    case True
    with inv show ?thesis by (simp add: pathInv_def ic_def)
  next
    case False
    with inv have "q \<notin> fst ` set (fst st)" by (simp add: pathInv_def)
    then have "map_of (fst st) q = None" by (simp add: map_of_eq_None_iff)
    moreover from False inv have "intentsOf data q = []"
      by (simp add: pathInv_def intentsOf_empty_iff)
    ultimately show ?thesis by (simp add: ic_def)
  qed
  have d: "distinct (snd st')" using inv by (simp add: st' pathInv_def set_add_def)
  have s: "set (snd st') = {p. \<exists>it' \<in> set (data @ [it]). pathOf it' = Some p}"
    using inv Some by (auto simp: st' pathInv_def set_add_def)
  have k: "fst ` set (fst st') = set (snd st')"
    using inv by (auto simp: st' pathInv_def set_add_def dom_update)
  have m: "map_of (fst st') p = Some (foldl increment [] (intentsOf (data @ [it]) p))"
    if "p \<in> set (snd st')" for p
  proof (cases "p = q")
    case True
    then show ?thesis by (simp add: st' update_conv' ic intentsOf_snoc Some)
  next
    case False
    with that have "p \<in> set (snd st)" by (auto simp: st' set_add_def split: if_splits)
    with inv False Some show ?thesis
      by (simp add: st' update_conv' pathInv_def intentsOf_snoc)
  qed
  from d s k m show ?thesis unfolding pathInv_def by blast
qed

lemma pathIntents_inv: "pathIntents data = Inr st \<Longrightarrow> pathInv data st"
proof (induction data arbitrary: st rule: rev_induct)
  case Nil
  then show ?case by (auto simp: pathIntents_def pathInv_def)
next
  case (snoc it data)
  from snoc.prems obtain st0 where a: "pathIntents data = Inr st0"
    and b: "pathIntentStep st0 it = Inr st"
    by (auto simp: pathIntents_def forEachE_snoc split: sum.splits)
  from pathInv_step [OF snoc.IH [OF a] b] show ?case .
qed

lemma pathIntents_returns:
  assumes "\<forall>it \<in> set data. truthy (learning_path it) \<longrightarrow> (\<exists>s. learning_path it = JStr s)"
    and "\<forall>it \<in> set data. \<forall>p. pathOf it = Some p \<longrightarrow> plain_key p"
  shows "\<exists>st. pathIntents data = Inr st"
  using assms
proof (induction data rule: rev_induct)
  case Nil
  show ?case by (simp add: pathIntents_def)
next
  case (snoc it data)
  then obtain st0 where a: "pathIntents data = Inr st0" by auto
  from snoc.prems have "\<exists>q. trimmedPath (learning_path it) = Inr q"
    by (cases "learning_path it") (auto simp: trimmedPath_def)
  moreover from snoc.prems have "\<forall>p. pathOf it = Some p \<longrightarrow> plain_key p" by simp
  ultimately have "\<exists>st. pathIntentStep st0 it = Inr st"
    by (rule pathIntentStep_returns)
  with a show ?case by (auto simp: pathIntents_def forEachE_snoc)
qed

lemma Object_keys_key_order: "Object_keys ob = key_order (map fst ob)"
  by (simp add: Object_keys_def Object_entries_def key_order_def map_sort_key_comp
        filter_map comp_def)

lemma mset_key_order: "mset (key_order ks) = mset ks"
  by (simp add: key_order_def)

lemma set_key_order [simp]: "set (key_order ks) = set ks"
  by (metis mset_key_order set_mset_mset)

lemma key_order_empty_iff [simp]: "key_order ks = [] \<longleftrightarrow> ks = []"
  by (metis mset_key_order mset_zero_iff)

text \<open>The \<open>reduce\<close> of line 231 keeps the later of two keys with equal counts.\<close>

lemma reduce_last_maximum:
  fixes c :: "'k \<Rightarrow> nat"
  shows "\<exists>pre post. x # xs = pre @ foldl (\<lambda>a b. if c b < c a then a else b) x xs # post
     \<and> (\<forall>k \<in> set pre. c k \<le> c (foldl (\<lambda>a b. if c b < c a then a else b) x xs))
     \<and> (\<forall>k \<in> set post. c k < c (foldl (\<lambda>a b. if c b < c a then a else b) x xs))"
proof (induction xs rule: rev_induct)
  case Nil
  have "[x] = [] @ x # []" by simp
  then show ?case by force
next
  case (snoc y xs)
  define d where "d = foldl (\<lambda>a b. if c b < c a then a else b) x xs"
  from snoc obtain pre post where dec: "x # xs = pre @ d # post"
    and pre: "\<forall>k \<in> set pre. c k \<le> c d" and post: "\<forall>k \<in> set post. c k < c d"
    unfolding d_def by blast
  show ?case
  proof (cases "c y < c d")
    case True
    then have "foldl (\<lambda>a b. if c b < c a then a else b) x (xs @ [y]) = d"
      by (simp add: d_def)
    moreover have "x # xs @ [y] = pre @ d # (post @ [y])" using dec by simp
    moreover have "\<forall>k \<in> set (post @ [y]). c k < c d" using post True by simp
    ultimately show ?thesis using pre by metis
  next
    case False
    then have r: "foldl (\<lambda>a b. if c b < c a then a else b) x (xs @ [y]) = y"
      by (simp add: d_def)
    have "\<forall>k \<in> set (x # xs). c k \<le> c y"
    proof
      fix k assume "k \<in> set (x # xs)"
      then have "k \<in> set pre \<or> k = d \<or> k \<in> set post" unfolding dec by auto
      with pre post False show "c k \<le> c y" by force
    qed
    moreover have "x # xs @ [y] = (x # xs) @ y # []" by simp
    ultimately show ?thesis unfolding r by (metis empty_iff list.set(1))
  qed
qed

lemma js_gt_counts:
  assumes "b \<in> set ks"
  shows "js_gt (map_of (counted (tally ks)) a) (map_of (counted (tally ks)) b)
           \<longleftrightarrow> count_list ks b < count_list ks a"
  using assms by (auto simp: map_of_counted map_of_tally count_list_0_iff)

lemma reduce_counts:
  assumes "set xs \<subseteq> set ks"
  shows "foldl (\<lambda>a b. if js_gt (map_of (counted (tally ks)) a)
                              (map_of (counted (tally ks)) b) then a else b) x xs
       = foldl (\<lambda>a b. if count_list ks b < count_list ks a then a else b) x xs"
  using assms by (intro foldl_cong) (auto simp: js_gt_counts)

lemma pathRows_rows:
  "pathRows pis ps = Inr rows \<Longrightarrow> r \<in> set rows \<Longrightarrow> \<exists>p \<in> set ps. pathRow pis p = Inr r"
  by (induction ps arbitrary: rows) (auto split: sum.splits)

lemma pathRows_paths:
  "pathRows pis ps = Inr rows \<Longrightarrow> p \<in> set ps \<Longrightarrow> \<exists>r \<in> set rows. pathRow pis p = Inr r"
  by (induction ps arbitrary: rows) (auto split: sum.splits)

lemma pathRows_returns:
  "\<forall>p \<in> set ps. \<exists>r. pathRow pis p = Inr r \<Longrightarrow> \<exists>rows. pathRows pis ps = Inr rows"
  by (induction ps) (auto split: sum.splits)

lemma pathRow_path: "pathRow pis p = Inr r \<Longrightarrow> path r = p"
  by (auto simp: pathRow_def Let_def split: option.splits sum.splits)

lemma sort_desc_set: "sort_desc f xs = Inr ys \<Longrightarrow> set ys = set xs"
  by (auto simp: sort_desc_def split: if_splits)

text \<open>
  The row of a path whose intents have been counted from the nonempty list \<open>ks\<close> of
  plain keys.
\<close>

lemma pathRow_counted:
  assumes m: "map_of pis p = Some (foldl increment [] ks)" and ne: "ks \<noteq> []"
    and plain: "\<forall>k \<in> set ks. plain_key k"
  shows "\<exists>x xs. key_order (first_occurrences ks) = x # xs
     \<and> pathRow pis p =
         Inr \<lparr>path = p, total = Count (length ks),
              dominantIntent =
                foldl (\<lambda>a b. if count_list ks b < count_list ks a then a else b) x xs,
              dominantIntentCount =
                Some (Count (count_list ks
                  (foldl (\<lambda>a b. if count_list ks b < count_list ks a then a else b) x xs))),
              dominantIntentPercentage =
                toFixed 1
                  (js_mul
                     (js_div
                        (Fin (of_nat (count_list ks
                           (foldl (\<lambda>a b. if count_list ks b < count_list ks a then a else b)
                              x xs))))
                        (Fin (of_nat (length ks))))
                     (Fin 100))\<rparr>"
proof -
  define ic where "ic = counted (tally ks)"
  have m': "map_of pis p = Some ic"
    unfolding m ic_def by (simp add: foldl_increment_plain [OF plain])
  have keys: "Object_keys ic = key_order (first_occurrences ks)"
    by (simp add: Object_keys_key_order ic_def map_fst_counted keys_tally)
  from ne have "key_order (first_occurrences ks) \<noteq> []"
    by (simp add: first_occurrences_def)
  then obtain x xs where xs: "key_order (first_occurrences ks) = x # xs"
    by (cases "key_order (first_occurrences ks)") auto
  have sub: "set (x # xs) \<subseteq> set ks"
    using xs by (metis set_key_order set_first_occurrences subset_refl)
  define d where "d = foldl (\<lambda>a b. if count_list ks b < count_list ks a then a else b) x xs"
  have red: "foldl (\<lambda>a b. if js_gt (map_of ic a) (map_of ic b) then a else b) x xs = d"
    unfolding ic_def d_def using sub by (intro reduce_counts) simp
  have "d \<in> set (x # xs)"
    using reduce_last_maximum [of x xs "count_list ks"] unfolding d_def [symmetric]
    by (metis in_set_conv_decomp)
  with sub have dk: "d \<in> set ks" by blast
  then have cnt: "map_of ic d = Some (Count (count_list ks d))"
    by (simp add: ic_def map_of_counted map_of_tally)
  have tot: "foldl js_plus (Count 0) (Object_values ic) = Count (length ks)"
    by (simp add: ic_def total_counted sum_list_tally)
  have "pathRow pis p =
         Inr \<lparr>path = p, total = Count (length ks), dominantIntent = d,
              dominantIntentCount = Some (Count (count_list ks d)),
              dominantIntentPercentage =
                toFixed 1
                  (js_mul (js_div (Fin (of_nat (count_list ks d))) (Fin (of_nat (length ks))))
                          (Fin 100))\<rparr>"
    unfolding pathRow_def m'
    by (simp add: Let_def keys xs red cnt tot del: js_mul.simps js_div.simps)
  with xs show ?thesis unfolding d_def by blast
qed

lemma processPathIntentData_rows:
  assumes "processPathIntentData data = Inr rows" and "row \<in> set rows"
    and "\<forall>k \<in> set (intentsOf data (path row)). plain_key k"
  shows "intentsOf data (path row) \<noteq> []
    \<and> (\<exists>x xs. key_order (first_occurrences (intentsOf data (path row))) = x # xs
     \<and> row =
         \<lparr>path = path row, total = Count (length (intentsOf data (path row))),
          dominantIntent =
            foldl (\<lambda>a b. if count_list (intentsOf data (path row)) b
                              < count_list (intentsOf data (path row)) a then a else b) x xs,
          dominantIntentCount =
            Some (Count (count_list (intentsOf data (path row))
              (foldl (\<lambda>a b. if count_list (intentsOf data (path row)) b
                              < count_list (intentsOf data (path row)) a then a else b) x xs))),
          dominantIntentPercentage =
            toFixed 1
              (js_mul
                 (js_div
                    (Fin (of_nat (count_list (intentsOf data (path row))
                       (foldl (\<lambda>a b. if count_list (intentsOf data (path row)) b
                              < count_list (intentsOf data (path row)) a then a else b) x xs))))
                    (Fin (of_nat (length (intentsOf data (path row))))))
                 (Fin 100))\<rparr>)"
proof -
  from assms(1) obtain st rs where st: "pathIntents data = Inr st"
    and rs: "pathRows (fst st) (snd st) = Inr rs"
    and rows: "sort_desc total rs = Inr rows"
    by (auto simp: processPathIntentData_def split: sum.splits)
  from assms(2) sort_desc_set [OF rows] have "row \<in> set rs" by simp
  from pathRows_rows [OF rs this] obtain p where p: "p \<in> set (snd st)"
    and row: "pathRow (fst st) p = Inr row" by blast
  from pathRow_path [OF row] have pp: "path row = p" .
  from pathIntents_inv [OF st] p
  have m: "map_of (fst st) p = Some (foldl increment [] (intentsOf data p))"
    and ne: "intentsOf data p \<noteq> []"
    by (auto simp: pathInv_def intentsOf_empty_iff)
  from assms(3) have plain: "\<forall>k \<in> set (intentsOf data p). plain_key k" by (simp add: pp)
  from pathRow_counted [OF m ne plain] row ne show ?thesis unfolding pp by auto
qed

lemma processPathIntentData_paths:
  assumes "processPathIntentData data = Inr rows"
  shows "set (map path rows) = {p. \<exists>it \<in> set data. pathOf it = Some p}"
proof -
  from assms obtain st rs where st: "pathIntents data = Inr st"
    and rs: "pathRows (fst st) (snd st) = Inr rs"
    and rows: "sort_desc total rs = Inr rows"
    by (auto simp: processPathIntentData_def split: sum.splits)
  have "set (map path rs) = set (snd st)"
  proof (intro set_eqI iffI)
    fix p assume "p \<in> set (map path rs)"
    then obtain r where "r \<in> set rs" and "path r = p" by auto
    with pathRows_rows [OF rs] pathRow_path show "p \<in> set (snd st)" by blast
  next
    fix p assume "p \<in> set (snd st)"
    from pathRows_paths [OF rs this] pathRow_path show "p \<in> set (map path rs)" by force
  qed
  moreover from pathIntents_inv [OF st]
  have "set (snd st) = {p. \<exists>it \<in> set data. pathOf it = Some p}" by (simp add: pathInv_def)
  ultimately show ?thesis using sort_desc_set [OF rows] by simp
qed

lemma processPathIntentData_returns:
  assumes "\<forall>it \<in> set data. truthy (learning_path it) \<longrightarrow> (\<exists>s. learning_path it = JStr s)"
    and "\<forall>it \<in> set data. \<forall>p. pathOf it = Some p \<longrightarrow> plain_key p \<and> plain_key (intentKey it)"
  shows "\<exists>rows. processPathIntentData data = Inr rows"
proof -
  from assms(2) have paths: "\<forall>it \<in> set data. \<forall>p. pathOf it = Some p \<longrightarrow> plain_key p"
    by blast
  from pathIntents_returns [OF assms(1) paths] obtain st where
    st: "pathIntents data = Inr st" by blast
  have row: "\<exists>r. pathRow (fst st) p = Inr r \<and> is_count (total r)" if "p \<in> set (snd st)" for p
  proof -
    from pathIntents_inv [OF st] that
    have m: "map_of (fst st) p = Some (foldl increment [] (intentsOf data p))"
      and ne: "intentsOf data p \<noteq> []"
      by (auto simp: pathInv_def intentsOf_empty_iff)
    have plain: "\<forall>k \<in> set (intentsOf data p). plain_key k"
      using assms(2) by (auto simp: intentsOf_def)
    from pathRow_counted [OF m ne plain] obtain r where
      "pathRow (fst st) p = Inr r" and "total r = Count (length (intentsOf data p))"
      by force
    then show ?thesis by (auto simp: is_count_def)
  qed
  then have "\<exists>rs. pathRows (fst st) (snd st) = Inr rs"
    by (intro pathRows_returns) blast
  then obtain rs where rs: "pathRows (fst st) (snd st) = Inr rs" by blast
  have "\<forall>r \<in> set rs. is_count (total r)"
  proof
    fix r assume "r \<in> set rs"
    from pathRows_rows [OF rs this] obtain p where "p \<in> set (snd st)"
      and "pathRow (fst st) p = Inr r" by blast
    with row show "is_count (total r)" by force
  qed
  then have "sort_desc total rs = Inr (sort_key (\<lambda>x. - int (the_count (total x))) rs)"
    by (rule sort_desc_counts)
  with st rs show ?thesis by (simp add: processPathIntentData_def)
qed

lemma dominant_row:
  assumes "processPathIntentData data = Inr rows" and "row \<in> set rows"
    and "\<forall>k \<in> set (intentsOf data (path row)). plain_key k"
  shows "(\<exists>pre post.
           key_order (first_occurrences (intentsOf data (path row)))
             = pre @ dominantIntent row # post
           \<and> (\<forall>i \<in> set pre. count_list (intentsOf data (path row)) i
                  \<le> count_list (intentsOf data (path row)) (dominantIntent row))
           \<and> (\<forall>i \<in> set post. count_list (intentsOf data (path row)) i
                  < count_list (intentsOf data (path row)) (dominantIntent row)))
        \<and> (\<forall>i. count_list (intentsOf data (path row)) i
                  \<le> count_list (intentsOf data (path row)) (dominantIntent row))
        \<and> dominantIntentCount row
             = Some (Count (count_list (intentsOf data (path row)) (dominantIntent row)))
        \<and> total row = Count (length (intentsOf data (path row)))"
proof (intro conjI)
  define ks where "ks = intentsOf data (path row)"
  define c where "c = count_list ks"
  from processPathIntentData_rows [OF assms] obtain x xs where
    xs: "key_order (first_occurrences ks) = x # xs"
    and row: "row = \<lparr>path = path row, total = Count (length ks),
          dominantIntent = foldl (\<lambda>a b. if c b < c a then a else b) x xs,
          dominantIntentCount = Some (Count (c (foldl (\<lambda>a b. if c b < c a then a else b) x xs))),
          dominantIntentPercentage =
            toFixed 1
              (js_mul
                 (js_div (Fin (of_nat (c (foldl (\<lambda>a b. if c b < c a then a else b) x xs))))
                         (Fin (of_nat (length ks))))
                 (Fin 100))\<rparr>"
    unfolding ks_def c_def by blast
  define d where "d = foldl (\<lambda>a b. if c b < c a then a else b) x xs"
  have dom: "dominantIntent row = d" by (subst row) (simp add: d_def)
  have cnt: "dominantIntentCount row = Some (Count (c d))" by (subst row) (simp add: d_def)
  have tot: "total row = Count (length ks)" by (subst row) simp
  from reduce_last_maximum [of x xs c] obtain pre post where
    dec: "x # xs = pre @ d # post" and pre: "\<forall>k \<in> set pre. c k \<le> c d"
    and post: "\<forall>k \<in> set post. c k < c d"
    unfolding d_def by blast
  have all: "c i \<le> c d" for i
  proof (cases "i \<in> set ks")
    case True
    then have "i \<in> set (x # xs)" using xs by (metis set_key_order set_first_occurrences)
    then have "i \<in> set pre \<or> i = d \<or> i \<in> set post" unfolding dec by auto
    with pre post show ?thesis by force
  next
    case False
    then show ?thesis by (simp add: c_def)
  qed
  show "\<exists>pre post.
           key_order (first_occurrences (intentsOf data (path row)))
             = pre @ dominantIntent row # post
           \<and> (\<forall>i \<in> set pre. count_list (intentsOf data (path row)) i
                  \<le> count_list (intentsOf data (path row)) (dominantIntent row))
           \<and> (\<forall>i \<in> set post. count_list (intentsOf data (path row)) i
                  < count_list (intentsOf data (path row)) (dominantIntent row))"
    unfolding ks_def [symmetric] c_def [symmetric] dom xs dec using pre post by blast
  show "\<forall>i. count_list (intentsOf data (path row)) i
                  \<le> count_list (intentsOf data (path row)) (dominantIntent row)"
    unfolding ks_def [symmetric] c_def [symmetric] dom using all by blast
  show "dominantIntentCount row
             = Some (Count (count_list (intentsOf data (path row)) (dominantIntent row)))"
    unfolding ks_def [symmetric] c_def [symmetric] dom by (rule cnt)
  show "total row = Count (length (intentsOf data (path row)))"
    unfolding ks_def [symmetric] by (rule tot)
qed




subsection \<open>The sentinels of \<open>learning_path\<close>\<close>

lemma proto_member: "''__proto__'' \<in> set object_prototype_members"
  by (simp add: object_prototype_members_def)

lemma keys_increment:
  "fst ` set (increment c k) =
     (if k = ''__proto__'' \<and> map_of c k = None then fst ` set c
      else insert k (fst ` set c))"
proof (cases "map_of c k")
  case None
  show ?thesis
  proof (cases "k = ''__proto__''")
    case True
    with None proto_member show ?thesis by (simp add: increment_def obj_get_def)
  next
    case False
    with None show ?thesis
      by (cases "k \<in> set object_prototype_members")
         (simp_all add: increment_def obj_get_def dom_update)
  qed
next
  case (Some v)
  then show ?thesis
    by (cases v) (simp_all add: increment_def obj_get_def dom_update)
qed

lemma keys_foldl_increment:
  "fst ` set (foldl increment [] ks) = set ks - {''__proto__''}"
proof (induction ks rule: rev_induct)
  case Nil
  show ?case by simp
next
  case (snoc k ks)
  define c where "c = foldl increment [] ks"
  have keys: "fst ` set c = set ks - {''__proto__''}" unfolding c_def by (rule snoc.IH)
  have step: "fst ` set (foldl increment [] (ks @ [k])) = fst ` set (increment c k)"
    by (simp add: c_def)
  show ?case
  proof (cases "k = ''__proto__''")
    case True
    have "''__proto__'' \<notin> fst ` set c" using keys by auto
    then have "map_of c ''__proto__'' = None" by (simp add: map_of_eq_None_iff)
    with True have "fst ` set (increment c k) = fst ` set c" by (simp add: keys_increment)
    with True keys show ?thesis unfolding step by auto
  next
    case False
    then have "fst ` set (increment c k) = insert k (fst ` set c)" by (simp add: keys_increment)
    with False keys show ?thesis unfolding step by auto
  qed
qed

lemma keys_learningPathCounts:
  "fst ` set (learningPathCounts data)
     = (\<lambda>it. to_key (learning_path it)) ` set (filter countedPath data) - {''__proto__''}"
  by (simp add: learningPathCounts_eq keys_foldl_increment)

lemma names_processLearningPathData:
  assumes "processLearningPathData data = Inr es"
  shows "set (map name_of es)
     = (\<lambda>it. to_key (learning_path it)) ` set (filter countedPath data) - {''__proto__''}"
proof -
  define ks where "ks = map (\<lambda>it. to_key (learning_path it)) (filter countedPath data)"
  define counts where "counts = foldl increment [] ks"
  define mk where "mk = (\<lambda>(key, v).
       \<lparr>name_of = key, value_of = v,
        percentage =
          toFixed 1
            (js_mul (js_div (cnum v) (cnum (foldl js_plus (Count 0) (Object_values counts))))
                    (Fin 100))\<rparr>)"
  have "sort_desc value_of (map mk (Object_entries counts)) = Inr es"
    using assms
    unfolding processLearningPathData_def Let_def learningPathCounts_eq ks_def [symmetric]
      counts_def [symmetric] mk_def [symmetric] .
  from sort_desc_set [OF this] have "set es = mk ` set (Object_entries counts)" by simp
  then have "set (map name_of es) = (\<lambda>p. name_of (mk p)) ` set counts"
    by (simp add: set_Object_entries image_image)
  also have "\<dots> = fst ` set counts"
    by (simp add: mk_def case_prod_beta)
  also have "\<dots> = set ks - {''__proto__''}"
    using keys_foldl_increment [of ks] by (simp add: counts_def)
  finally show ?thesis by (simp add: ks_def)
qed

text \<open>
  The empty string itself is not such a value: a row whose \<open>learning_path\<close> is the
  empty string is replaced by \<open>none\<close> before the comparison, and is left out of both
  reports.
\<close>

lemma empty_path_is_excluded:
  "processLearningPathData [on_path [] ''greeting''] = Inr []
   \<and> processPathIntentData [on_path [] ''greeting''] = Inr []"
  by code_simp



end
